theory Spec2Isabelle
  imports Main
begin

text \<open>
  A model of the query library: the value extraction utilities
  (\<open>fetchNestedValue\<close>, \<open>getFieldValue\<close>), the leaf and combination base classes
  (\<open>ConditionBase\<close>, \<open>CombinationBase\<close>), the walks of the abstract class \<open>Query\<close>
  and the registry of \<open>QueryType\<close>, followed by the properties proved of them.
\<close>

section \<open>Run-time values\<close>

text \<open>
  The candidate objects, field values and argument values of the query engine are
  untyped (\<open>any\<close>).  The model keeps the kinds of value the engine can tell apart:
  \<open>null\<close>, \<open>undefined\<close>, booleans, numbers, strings, plain objects with their own
  data properties, \<open>Map\<close> instances with their entries, and any other value (a
  function, a prototype, an instance of some class, a symbol), of which only the
  address is known.  An object carries the address it lives at, because \<open>===\<close>
  compares objects by reference.  Numbers are integers here (no \<open>NaN\<close>, no
  fractions).  A string of ASCII characters is itself; any other string stands as
  its UTF-8 bytes, which keeps equality, concatenation and the split at a dot as
  they are.
\<close>

type_synonym addr = nat

datatype jsval =
    VNull
  | VUndefined
  | VBool bool
  | VNum int
  | VStr string
  | VObject addr "(string \<times> jsval) list"
  | VMap addr "(jsval \<times> jsval) list"
  | VOther addr

text \<open>A \<open>Map\<close> instance: its address and its entries in insertion order.\<close>

type_synonym jsmap = "addr \<times> (jsval \<times> jsval) list"

definition mapValue :: "jsmap \<Rightarrow> jsval" where
  "mapValue m = VMap (fst m) (snd m)"

text \<open>What a call can raise: an \<open>Error\<close> with its message, a \<open>TypeError\<close>, or any value.\<close>

datatype js_error = Error string | TypeError | Thrown jsval

text \<open>\<open>a === b\<close>: primitives by value, objects by reference.\<close>

fun strict_eq :: "jsval \<Rightarrow> jsval \<Rightarrow> bool" where
  "strict_eq (VObject a _) (VObject b _) = (a = b)"
| "strict_eq (VMap a _) (VMap b _) = (a = b)"
| "strict_eq (VObject _ _) (VMap _ _) = False"
| "strict_eq (VMap _ _) (VObject _ _) = False"
| "strict_eq x y = (x = y)"

text \<open>\<open>v == null\<close> holds for \<open>null\<close> and \<open>undefined\<close> only.\<close>

fun loose_null :: "jsval \<Rightarrow> bool" where
  "loose_null VNull = True"
| "loose_null VUndefined = True"
| "loose_null _ = False"

text \<open>\<open>Map.prototype.get\<close>, on the entries of a \<open>Map\<close>.\<close>

fun Map_get :: "(jsval \<times> jsval) list \<Rightarrow> jsval \<Rightarrow> jsval" where
  "Map_get [] k = VUndefined"
| "Map_get ((k', v) # es) k = (if strict_eq k' k then v else Map_get es k)"

subsection \<open>The runtime\<close>

text \<open>
  What a value answers beyond its own data is decided by the runtime the program
  runs in: the members a value inherits from its prototype chain (\<open>size\<close> and \<open>get\<close>
  of a \<open>Map\<close>, \<open>toString\<close> of an object, whatever a program has added to a
  prototype), accessors, which compute their answer from the receiver and may raise,
  the methods of objects, and the Unicode tables.  The model takes the runtime as a
  parameter and the properties below hold for every runtime.

  \<^item> \<open>readMember v key\<close> is \<open>v[key]\<close> when \<open>key\<close> is not an own data property that
    the model holds of \<open>v\<close>;
  \<^item> \<open>callMethod v name\<close> is the call \<open>v.name()\<close> of a method that the model does not
    fix itself;
  \<^item> \<open>toText v\<close> is the conversion of \<open>v\<close> to a string in a template literal, for an
    object and for a number that is not printed in plain decimal digits;
  \<^item> \<open>upperCase\<close> and \<open>lowerCase\<close> are \<open>toUpperCase\<close> and \<open>toLowerCase\<close> on strings
    with a character outside ASCII.

  A read or a call answers the same on the same value each time it is made.
\<close>

record runtime =
  readMember :: "jsval \<Rightarrow> string \<Rightarrow> js_error + jsval"
  callMethod :: "jsval \<Rightarrow> string \<Rightarrow> js_error + jsval"
  toText :: "jsval \<Rightarrow> js_error + string"
  upperCase :: "string \<Rightarrow> string"
  lowerCase :: "string \<Rightarrow> string"

text \<open>
  A runtime to run examples in.  Of the inherited members it has the \<open>size\<close> of a
  \<open>Map\<close>, the number of its entries; every other key names no member, no method can
  be called, and the case of a character outside ASCII is left as it is.
\<close>

definition exampleRuntime :: runtime where
  "exampleRuntime =
     \<lparr>readMember = (\<lambda>v key. case v of
          VMap a es \<Rightarrow> if key = ''size'' then Inr (VNum (int (length es))) else Inr VUndefined
        | _ \<Rightarrow> Inr VUndefined),
      callMethod = (\<lambda>v name. Inl TypeError),
      toText = (\<lambda>v. Inl TypeError),
      upperCase = (\<lambda>s. s),
      lowerCase = (\<lambda>s. s)\<rparr>"

subsection \<open>Strings\<close>

text \<open>A character is ASCII when its eighth bit is clear.\<close>

definition ascii :: "string \<Rightarrow> bool" where
  "ascii s = list_all (\<lambda>c. \<not> digit7 c) s"

definition upperLetters :: string where
  "upperLetters = ''ABCDEFGHIJKLMNOPQRSTUVWXYZ''"

definition lowerLetters :: string where
  "lowerLetters = ''abcdefghijklmnopqrstuvwxyz''"

definition lowerChar :: "char \<Rightarrow> char" where
  "lowerChar c = (case map_of (zip upperLetters lowerLetters) c of Some d \<Rightarrow> d | None \<Rightarrow> c)"

definition upperChar :: "char \<Rightarrow> char" where
  "upperChar c = (case map_of (zip lowerLetters upperLetters) c of Some d \<Rightarrow> d | None \<Rightarrow> c)"

text \<open>
  \<open>s.toLowerCase()\<close> and \<open>s.toUpperCase()\<close>.  On a string of ASCII characters the
  case mapping exchanges the letters \<open>A\<close> to \<open>Z\<close> and \<open>a\<close> to \<open>z\<close> and nothing else;
  on any other string it is the runtime's.
\<close>

definition toLowerCase :: "runtime \<Rightarrow> string \<Rightarrow> string" where
  "toLowerCase rt s = (if ascii s then map lowerChar s else lowerCase rt s)"

definition toUpperCase :: "runtime \<Rightarrow> string \<Rightarrow> string" where
  "toUpperCase rt s = (if ascii s then map upperChar s else upperCase rt s)"

text \<open>\<open>s.split(".")\<close>: never empty; the empty string gives one empty piece.\<close>

fun split_dot :: "string \<Rightarrow> string list" where
  "split_dot [] = [[]]"
| "split_dot (c # cs) =
     (if c = CHR ''.'' then [] # split_dot cs
      else (case split_dot cs of [] \<Rightarrow> [[c]] | w # ws \<Rightarrow> (c # w) # ws))"

text \<open>A natural number in decimal digits, without leading zeros.\<close>

definition digitChar :: "nat \<Rightarrow> char" where
  "digitChar d = ''0123456789'' ! d"

fun decimal :: "nat \<Rightarrow> string" where
  "decimal n =
     (if n < 10 then [digitChar n] else decimal (n div 10) @ [digitChar (n mod 10)])"

declare decimal.simps [simp del]

subsection \<open>Reading a property\<close>

text \<open>
  The index of a string that a key names: the \<open>i\<close> below the length whose decimal
  form is the key.
\<close>

fun arrayIndex :: "string \<Rightarrow> nat \<Rightarrow> nat option" where
  "arrayIndex key 0 = None"
| "arrayIndex key (Suc n) = (if decimal n = key then Some n else arrayIndex key n)"

text \<open>
  \<open>obj[key]\<close>.  On \<open>null\<close> and \<open>undefined\<close> the read raises a \<open>TypeError\<close>.  A plain
  object answers with its own property of that name when it has one.  A string has
  its \<open>length\<close> and its characters, each under its index.  A \<open>Map\<close> keeps its
  entries in an internal slot: they are not properties, and the bracket read does
  not see them.  Every other read is the runtime's: an inherited member, an
  accessor, a member of an object the model knows by address only; it answers a
  value (\<open>undefined\<close> when the key names nothing) or raises.
\<close>

fun propertyOf :: "runtime \<Rightarrow> jsval \<Rightarrow> string \<Rightarrow> js_error + jsval" where
  "propertyOf rt VNull key = Inl TypeError"
| "propertyOf rt VUndefined key = Inl TypeError"
| "propertyOf rt (VObject a props) key =
     (case map_of props key of
        Some v \<Rightarrow> Inr v
      | None \<Rightarrow> readMember rt (VObject a props) key)"
| "propertyOf rt (VStr s) key =
     (if ascii s then
        (if key = ''length'' then Inr (VNum (int (length s)))
         else (case arrayIndex key (length s) of
                 Some i \<Rightarrow> Inr (VStr [s ! i])
               | None \<Rightarrow> readMember rt (VStr s) key))
      else readMember rt (VStr s) key)"
| "propertyOf rt v key = readMember rt v key"

text \<open>
  The call \<open>v.name()\<close> of a method the model does not fix.  On \<open>null\<close> and
  \<open>undefined\<close> it raises a \<open>TypeError\<close>, and so it does on a plain object whose own
  property of that name is not a function.  Every other call is the runtime's.
\<close>

fun invoke :: "runtime \<Rightarrow> jsval \<Rightarrow> string \<Rightarrow> js_error + jsval" where
  "invoke rt VNull name = Inl TypeError"
| "invoke rt VUndefined name = Inl TypeError"
| "invoke rt (VObject a props) name =
     (case map_of props name of
        Some (VOther f) \<Rightarrow> callMethod rt (VObject a props) name
      | Some _ \<Rightarrow> Inl TypeError
      | None \<Rightarrow> callMethod rt (VObject a props) name)"
| "invoke rt v name = callMethod rt v name"

section \<open>Value extraction utilities\<close>

subsection \<open>fetchNestedValue\<close>

text \<open>
  The path argument is a string or an array of strings.  An array is the caller's
  object: \<open>path.shift()\<close> removes its first element in place, so the model returns
  the array as the call leaves it, beside the value the call returns or the error
  it raises.  On an empty array \<open>shift\<close> answers \<open>undefined\<close> and the array stays
  empty.
\<close>

datatype path = PathString string | PathArray "string list"

fun fetchNestedArray ::
  "runtime \<Rightarrow> jsval \<Rightarrow> string list \<Rightarrow> jsval \<Rightarrow> (js_error + jsval) \<times> string list" where
  "fetchNestedArray rt obj [] fallback = (Inr fallback, [])"
| "fetchNestedArray rt obj (key # rest) fallback =
     (if loose_null obj then (Inr fallback, key # rest)
      else
        (case propertyOf rt obj key of
           Inl e \<Rightarrow> (Inl e, rest)
         | Inr val \<Rightarrow>
             if val = VNull \<or> val = VUndefined then (Inr fallback, rest)
             else if 0 < length rest then fetchNestedArray rt val rest fallback
             else (Inr val, rest)))"

text \<open>
  The parameter \<open>fallback = null\<close> takes its default when the caller leaves it out
  or passes \<open>undefined\<close>.  A string path is split into an array of the call's own,
  so the caller's string is returned as it was.
\<close>

definition defaultFallback :: "jsval \<Rightarrow> jsval" where
  "defaultFallback fallback = (if fallback = VUndefined then VNull else fallback)"

fun fetchNestedValue ::
  "runtime \<Rightarrow> jsval \<Rightarrow> path \<Rightarrow> jsval \<Rightarrow> (js_error + jsval) \<times> path" where
  "fetchNestedValue rt obj (PathString s) fallback =
     (if loose_null obj then (Inr (defaultFallback fallback), PathString s)
      else (fst (fetchNestedArray rt obj (split_dot s) (defaultFallback fallback)), PathString s))"
| "fetchNestedValue rt obj (PathArray ks) fallback =
     (case fetchNestedArray rt obj ks (defaultFallback fallback) of
        (v, ks') \<Rightarrow> (v, PathArray ks'))"

text \<open>
  The values a path leads through.  \<open>valueAt obj ks\<close> is what reading the keys
  \<open>ks\<close> one after the other, starting at \<open>obj\<close>, arrives at.  A value is \<open>readable\<close>
  when a key can be read from it: the reads up to it have not raised and it is
  neither \<open>null\<close> nor \<open>undefined\<close>.  \<open>reached obj ks\<close> lists, for every key of the
  path, the value that key is to be read from; \<open>levelsVisited\<close> are the readable
  ones at its front: the levels the path goes through before the first value that
  cannot be read from.
\<close>

fun valueAt :: "runtime \<Rightarrow> jsval \<Rightarrow> string list \<Rightarrow> js_error + jsval" where
  "valueAt rt obj [] = Inr obj"
| "valueAt rt obj (key # rest) =
     (case propertyOf rt obj key of Inl e \<Rightarrow> Inl e | Inr val \<Rightarrow> valueAt rt val rest)"

definition readable :: "js_error + jsval \<Rightarrow> bool" where
  "readable x = (case x of Inl e \<Rightarrow> False | Inr v \<Rightarrow> \<not> loose_null v)"

definition reached :: "runtime \<Rightarrow> jsval \<Rightarrow> string list \<Rightarrow> (js_error + jsval) list" where
  "reached rt obj ks = map (\<lambda>m. valueAt rt obj (take m ks)) [0..<length ks]"

definition levelsVisited :: "runtime \<Rightarrow> jsval \<Rightarrow> string list \<Rightarrow> (js_error + jsval) list" where
  "levelsVisited rt obj ks = takeWhile readable (reached rt obj ks)"

subsection \<open>getFieldValue\<close>

fun getFieldValue :: "runtime \<Rightarrow> jsval \<Rightarrow> string option \<Rightarrow> jsval" where
  "getFieldValue rt t None = t"
| "getFieldValue rt t (Some field) =
     (if toLowerCase rt field = ''this'' then t
      else (case t of VMap _ es \<Rightarrow> Map_get es (VStr field) | _ \<Rightarrow> VNull))"

section \<open>The predicate tree\<close>

text \<open>
  A node is a leaf condition (class \<open>ConditionBase\<close>) or a combination (class
  \<open>CombinationBase\<close>); the base classes are the equality leaf and the AND
  combination.  A leaf holds \<open>_fieldName\<close>, \<open>_argName\<close> (a string or \<open>null\<close>) and
  \<open>_argMap\<close> (a \<open>Map\<close> or \<open>null\<close>); a combination holds its \<open>_children\<close> in order
  and its \<open>_argMap\<close>.  Evaluation and the read-only walks do not write to the
  nodes, so they are functions of the tree as a value.  Every node carries the
  address of its object; a node object that several positions refer to appears
  once per position, each time with the same address.
\<close>

datatype query =
    Condition addr "string option" "string option" "jsmap option"
  | Combination addr "query list" jsmap

fun ident :: "query \<Rightarrow> addr" where
  "ident (Condition i _ _ _) = i"
| "ident (Combination i _ _) = i"

fun isBasicOperator :: "query \<Rightarrow> bool" where
  "isBasicOperator (Condition _ _ _ _) = True"
| "isBasicOperator (Combination _ _ _) = False"

fun isCombinationOperator :: "query \<Rightarrow> bool" where
  "isCombinationOperator (Condition _ _ _ _) = False"
| "isCombinationOperator (Combination _ _ _) = True"

fun childrenQuery :: "query \<Rightarrow> query list option" where
  "childrenQuery (Condition _ _ _ _) = None"
| "childrenQuery (Combination _ cs _) = Some cs"

fun fieldName :: "query \<Rightarrow> string option" where
  "fieldName (Condition _ f _ _) = f"
| "fieldName (Combination _ _ _) = None"

fun argumentName :: "query \<Rightarrow> string option" where
  "argumentName (Condition _ _ a _) = a"
| "argumentName (Combination _ _ _) = None"

text \<open>\<open>CombinationBase\<close> does not override \<open>defaultArgumentMap\<close>: it answers \<open>null\<close>.\<close>

fun defaultArgumentMap :: "query \<Rightarrow> jsmap option" where
  "defaultArgumentMap (Condition _ _ _ m) = m"
| "defaultArgumentMap (Combination _ _ _) = None"

text \<open>The \<open>_argMap\<close> field itself, as the constructor stored it.\<close>

fun storedArgMap :: "query \<Rightarrow> jsmap option" where
  "storedArgMap (Condition _ _ _ m) = m"
| "storedArgMap (Combination _ _ m) = Some m"

text \<open>
  \<open>map && name ? map.get(name) : null\<close>: a map is truthy unless it is \<open>null\<close>, a
  string unless it is \<open>null\<close> or empty.
\<close>

definition defaultArgumentValue :: "query \<Rightarrow> jsval" where
  "defaultArgumentValue q =
     (case (defaultArgumentMap q, argumentName q) of
        (Some m, Some name) \<Rightarrow> (if name \<noteq> [] then Map_get (snd m) (VStr name) else VNull)
      | _ \<Rightarrow> VNull)"

subsection \<open>Leaf conditions\<close>

text \<open>
  \<open>getArgumentValue\<close> reads the argument through \<open>fetchNestedValue\<close>, that is with
  \<open>argMap[key]\<close> for every piece of the argument name: the entries of the map are
  not consulted, and the call raises when a read does.
\<close>

definition getArgumentValue :: "runtime \<Rightarrow> jsmap option \<Rightarrow> string option \<Rightarrow> js_error + jsval" where
  "getArgumentValue rt argMap argName =
     (case (argMap, argName) of
        (Some m, Some name) \<Rightarrow>
          (if name = [] then Inr VNull
           else fst (fetchNestedValue rt (mapValue m) (PathString name) VUndefined))
      | _ \<Rightarrow> Inr VNull)"

definition testValues :: "jsval \<Rightarrow> jsval \<Rightarrow> bool" where
  "testValues fieldValue argValue =
     (if strict_eq argValue VNull then strict_eq fieldValue VNull
      else strict_eq argValue fieldValue)"

text \<open>
  \<open>"_key".toLowerCase() == this._fieldName?.toLowerCase()\<close>: with \<open>_fieldName\<close>
  \<open>null\<close> the right side is \<open>undefined\<close> and the comparison is false.
\<close>

fun lowerFieldIs :: "runtime \<Rightarrow> string \<Rightarrow> string option \<Rightarrow> bool" where
  "lowerFieldIs rt s None = False"
| "lowerFieldIs rt s (Some f) = (toLowerCase rt s = toLowerCase rt f)"

definition getAndTestFieldValue ::
  "runtime \<Rightarrow> string option \<Rightarrow> string option \<Rightarrow> jsval \<Rightarrow> jsmap option \<Rightarrow> js_error + bool" where
  "getAndTestFieldValue rt field argName t argMap =
     (case getArgumentValue rt argMap argName of
        Inl e \<Rightarrow> Inl e
      | Inr argValue \<Rightarrow>
          Inr (case t of
                 VMap a es \<Rightarrow>
                   (if lowerFieldIs rt ''_key'' field
                    then list_ex (\<lambda>e. testValues (fst e) argValue) es
                    else if lowerFieldIs rt ''_val'' field
                    then list_ex (\<lambda>e. testValues (snd e) argValue) es
                    else testValues (getFieldValue rt t field) argValue)
               | _ \<Rightarrow> testValues (getFieldValue rt t field) argValue))"

text \<open>\<open>ConditionBase.test\<close> and \<open>ConditionBase.testWithArgMap\<close> of a leaf.\<close>

definition Condition_test ::
  "runtime \<Rightarrow> string option \<Rightarrow> string option \<Rightarrow> jsmap option \<Rightarrow> jsval \<Rightarrow> js_error + bool" where
  "Condition_test rt field argName ownArgMap t = getAndTestFieldValue rt field argName t ownArgMap"

definition Condition_testWithArgMap ::
  "runtime \<Rightarrow> string option \<Rightarrow> string option \<Rightarrow> jsval \<Rightarrow> jsmap option \<Rightarrow> js_error + bool" where
  "Condition_testWithArgMap rt field argName t argMap =
     getAndTestFieldValue rt field argName t argMap"

text \<open>
  \<open>ConditionBase._keyValuesMap\<close>.  The accumulator is a \<open>Map\<close> from field name to
  an array of values, kept as an association list in insertion order: \<open>set\<close> of a
  new key appends a bucket, \<open>push\<close> extends the bucket of the key.
\<close>

type_synonym kvmap = "(string \<times> jsval list) list"

definition Condition_keyValuesMap ::
  "string option \<Rightarrow> string option \<Rightarrow> jsmap option \<Rightarrow> kvmap \<Rightarrow> kvmap" where
  "Condition_keyValuesMap key argName argMap mapToReturn =
     (case key of
        None \<Rightarrow> mapToReturn
      | Some k \<Rightarrow>
          if k = [] then mapToReturn
          else
            (let val = (case (argMap, argName) of
                          (Some m, Some n) \<Rightarrow> (if n \<noteq> [] then Map_get (snd m) (VStr n) else VNull)
                        | _ \<Rightarrow> VNull);
                 withBucket = (if map_of mapToReturn k = None then mapToReturn @ [(k, [])]
                               else mapToReturn)
             in map (\<lambda>e. if fst e = k then (fst e, snd e @ [val]) else e) withBucket))"

subsection \<open>Combinations\<close>

text \<open>
  The constructor's arguments are untyped at run time: an array of nodes, a node, or
  any other value (a \<open>Map\<close> among them; \<open>undefined\<close> for an argument left out).
\<close>

datatype ctorArg = ArgArray "query list" | ArgQuery query | ArgValue jsval

fun asMap :: "ctorArg \<Rightarrow> jsmap option" where
  "asMap (ArgValue (VMap a es)) = Some (a, es)"
| "asMap _ = None"

fun asQuery :: "ctorArg \<Rightarrow> query list" where
  "asQuery (ArgQuery q) = [q]"
| "asQuery _ = []"

text \<open>The constructor of \<open>CombinationBase\<close>; \<open>this\<close> is the address of the new object.\<close>

fun isArrayArg :: "ctorArg \<Rightarrow> bool" where
  "isArrayArg (ArgArray _) = True"
| "isArrayArg _ = False"

definition invalidArguments :: js_error where
  "invalidArguments = Error ''Invalid arguments types for CombinationBase constructor''"

definition CombinationBase :: "addr \<Rightarrow> ctorArg \<Rightarrow> ctorArg \<Rightarrow> ctorArg \<Rightarrow> js_error + query" where
  "CombinationBase this arg1 arg2 arg3 =
     (case (arg1, asMap arg2) of
        (ArgArray children, Some argMap) \<Rightarrow> Inr (Combination this children argMap)
      | _ \<Rightarrow>
          (case asMap arg3 of
             Some argMap \<Rightarrow> Inr (Combination this (asQuery arg1 @ asQuery arg2) argMap)
           | None \<Rightarrow> Inl invalidArguments))"

text \<open>
  The loop of \<open>CombinationBase.testWithArgMap\<close>, over the children still to visit.
  \<open>childTest\<close> is the call \<open>child.testWithArgMap(t, argMap)\<close>; an error it raises
  leaves the loop and the call.  Beside the result the loop returns the children it
  has called, in order, so that what is and is not evaluated can be stated.
\<close>

fun combinationLoop ::
  "('q \<Rightarrow> js_error + bool) \<Rightarrow> 'q list \<Rightarrow> bool \<Rightarrow> 'q list \<Rightarrow> (js_error + bool) \<times> 'q list" where
  "combinationLoop childTest [] result called = (Inr result, called)"
| "combinationLoop childTest (child # rest) result called =
     (case childTest child of
        Inl e \<Rightarrow> (Inl e, called @ [child])
      | Inr matches \<Rightarrow>
          if matches then combinationLoop childTest rest True (called @ [child])
          else (Inr False, called @ [child]))"

lemma combinationLoop_cong [fundef_cong]:
  assumes "cs = cs'" and "r = r'" and "v = v'"
    and "\<And>c. c \<in> set cs' \<Longrightarrow> f c = g c"
  shows "combinationLoop f cs r v = combinationLoop g cs' r' v'"
  using assms
proof (induction cs' arbitrary: cs r r' v v')
  case Nil
  then show ?case by simp
next
  case (Cons c rest)
  then show ?case by (simp split: sum.splits)
qed

fun testWithArgMap :: "runtime \<Rightarrow> query \<Rightarrow> jsval \<Rightarrow> jsmap option \<Rightarrow> js_error + bool" where
  "testWithArgMap rt (Condition i field argName ownArgMap) t argMap =
     Condition_testWithArgMap rt field argName t argMap"
| "testWithArgMap rt (Combination i children ownArgMap) t argMap =
     fst (combinationLoop (\<lambda>child. testWithArgMap rt child t argMap) children False [])"

text \<open>The children a combination calls during \<open>testWithArgMap\<close>; none for a leaf.\<close>

fun calledChildren :: "runtime \<Rightarrow> query \<Rightarrow> jsval \<Rightarrow> jsmap option \<Rightarrow> query list" where
  "calledChildren rt (Condition i field argName ownArgMap) t argMap = []"
| "calledChildren rt (Combination i children ownArgMap) t argMap =
     snd (combinationLoop (\<lambda>child. testWithArgMap rt child t argMap) children False [])"

fun test :: "runtime \<Rightarrow> query \<Rightarrow> jsval \<Rightarrow> js_error + bool" where
  "test rt (Condition i field argName ownArgMap) t = Condition_test rt field argName ownArgMap t"
| "test rt (Combination i children ownArgMap) t =
     testWithArgMap rt (Combination i children ownArgMap) t (Some ownArgMap)"

text \<open>
  \<open>keyValuesMap\<close> as a child of a combination is called with the accumulator.  A
  leaf inherits \<open>Query.keyValuesMap()\<close>, which takes no parameter: the argument is
  dropped and \<open>_keyValuesMap\<close> runs on a new, empty \<open>Map\<close>.  A combination runs
  \<open>CombinationBase.keyValuesMap(mapToReturn)\<close>, which hands each child the map the
  child before it returned.
\<close>

fun keyValuesMap :: "query \<Rightarrow> kvmap \<Rightarrow> kvmap" where
  "keyValuesMap (Condition i field argName ownArgMap) mapToReturn =
     Condition_keyValuesMap field argName ownArgMap []"
| "keyValuesMap (Combination i children ownArgMap) mapToReturn =
     fold (\<lambda>child acc. keyValuesMap child acc) children mapToReturn"

subsection \<open>Tree walks of the base class\<close>

text \<open>
  \<open>_queryArgumentsArray(ret)\<close>: a leaf pushes its default argument value unless it
  is \<open>null\<close> (\<open>value !== null\<close>); a combination passes \<open>ret\<close> through its children.
\<close>

fun queryArgumentsArray_rec :: "query \<Rightarrow> jsval list \<Rightarrow> jsval list" where
  "queryArgumentsArray_rec (Condition i field argName ownArgMap) ret =
     (let val = defaultArgumentValue (Condition i field argName ownArgMap) in
      if \<not> strict_eq val VNull then ret @ [val] else ret)"
| "queryArgumentsArray_rec (Combination i children ownArgMap) ret =
     fold (\<lambda>child acc. queryArgumentsArray_rec child acc) children ret"

definition queryArgumentsArray :: "query \<Rightarrow> jsval list" where
  "queryArgumentsArray q = queryArgumentsArray_rec q []"

text \<open>The leaves of a tree in document order (left to right, depth first).\<close>

fun leaves :: "query \<Rightarrow> query list" where
  "leaves (Condition i field argName ownArgMap) = [Condition i field argName ownArgMap]"
| "leaves (Combination i children ownArgMap) = concat (map leaves children)"

section \<open>The object store\<close>

text \<open>
  \<open>replaceQuery\<close> writes into the children arrays of the objects it walks, and it
  compares objects by reference.  For it the nodes live in a store: every address
  holds an object, and a combination object refers to the array of its children by
  the array's address (the constructor keeps the array it is given, and
  \<open>childrenQuery()\<close> returns that array, not a copy).  An array holds the addresses
  of the child objects.  Only arrays are ever written.
\<close>

datatype object =
    ConditionObject "string option" "string option" "jsmap option"
  | CombinationObject addr jsmap

record store =
  objects :: "addr \<Rightarrow> object"
  arrays :: "addr \<Rightarrow> addr list"

text \<open>
  The tree of the object at an address, read off the store down to a given depth:
  the value the evaluation and the walks above take.  It is \<open>None\<close> when the depth
  does not reach every leaf.
\<close>

fun treeAt :: "nat \<Rightarrow> store \<Rightarrow> addr \<Rightarrow> query option" where
  "treeAt 0 s a = None"
| "treeAt (Suc depth) s a =
     (case objects s a of
        ConditionObject field argName ownArgMap \<Rightarrow> Some (Condition a field argName ownArgMap)
      | CombinationObject subList ownArgMap \<Rightarrow>
          (if list_all (\<lambda>c. treeAt depth s c \<noteq> None) (arrays s subList)
           then Some (Combination a (map (\<lambda>c. the (treeAt depth s c)) (arrays s subList)) ownArgMap)
           else None))"

text \<open>\<open>subList[i] = v\<close>\<close>

definition writeSlot :: "store \<Rightarrow> addr \<Rightarrow> nat \<Rightarrow> addr \<Rightarrow> store" where
  "writeSlot s arr i v = s\<lparr>arrays := (arrays s)(arr := (arrays s arr)[i := v])\<rparr>"

text \<open>
  \<open>replaceQuery(original, replacement)\<close> and its loop over \<open>subList\<close>, the array of
  the receiver's children.  The loop reads \<open>subList.length\<close> and \<open>subList[i]\<close> from
  the store at every round.  A slot that holds \<open>original\<close> is overwritten with
  \<open>replacement\<close>; the object in any other slot is asked to replace within itself,
  and what its call returns is dropped.  The recursion ends only if the objects
  reached do not form a cycle, so the functions take fuel: every call and every
  round of the loop uses one unit, and \<open>None\<close> means that the fuel ran out.
\<close>

fun replaceQuery :: "nat \<Rightarrow> store \<Rightarrow> addr \<Rightarrow> addr \<Rightarrow> addr \<Rightarrow> (store \<times> addr) option"
  and replaceLoop :: "nat \<Rightarrow> store \<Rightarrow> addr \<Rightarrow> nat \<Rightarrow> addr \<Rightarrow> addr \<Rightarrow> store option" where
  "replaceQuery 0 s this original replacement = None"
| "replaceQuery (Suc fuel) s this original replacement =
     (if this = original then Some (s, replacement)
      else
        (case objects s this of
           CombinationObject subList ownArgMap \<Rightarrow>
             (case replaceLoop fuel s subList 0 original replacement of
                None \<Rightarrow> None
              | Some s' \<Rightarrow> Some (s', this))
         | ConditionObject field argName ownArgMap \<Rightarrow> Some (s, this)))"
| "replaceLoop 0 s subList i original replacement = None"
| "replaceLoop (Suc fuel) s subList i original replacement =
     (if i < length (arrays s subList) then
        (if arrays s subList ! i = original
         then replaceLoop fuel (writeSlot s subList i replacement) subList (Suc i)
                original replacement
         else
           (case replaceQuery fuel s (arrays s subList ! i) original replacement of
              None \<Rightarrow> None
            | Some (s', returned) \<Rightarrow> replaceLoop fuel s' subList (Suc i) original replacement))
      else Some s)"

text \<open>
  What the claims about replacement speak of.  \<open>spliced\<close> is an array with every
  slot that held \<open>original\<close> now holding \<open>replacement\<close>.  \<open>splices s s'\<close> says that
  \<open>s'\<close> differs from \<open>s\<close> at most in array slots that held \<open>original\<close> and now
  hold \<open>replacement\<close>.  \<open>inTree s original this\<close> are the objects of the tree under
  \<open>this\<close>: those reached from \<open>this\<close> through children, not passing through
  \<open>original\<close>.  \<open>ranked\<close> says that the store is free of cycles before and after
  the replacement, shared subtrees allowed: some rank falls from every combination
  to each of its children, and from every parent of \<open>original\<close> to \<open>replacement\<close>.
\<close>

definition spliced :: "addr \<Rightarrow> addr \<Rightarrow> addr list \<Rightarrow> addr list" where
  "spliced original replacement cs = map (\<lambda>c. if c = original then replacement else c) cs"

definition splices :: "addr \<Rightarrow> addr \<Rightarrow> store \<Rightarrow> store \<Rightarrow> bool" where
  "splices original replacement s s' \<longleftrightarrow>
     objects s' = objects s \<and>
     (\<forall>arr. length (arrays s' arr) = length (arrays s arr) \<and>
        (\<forall>j < length (arrays s arr).
           arrays s' arr ! j = arrays s arr ! j \<or>
           (arrays s arr ! j = original \<and> arrays s' arr ! j = replacement)))"

definition ranked :: "(addr \<Rightarrow> nat) \<Rightarrow> addr \<Rightarrow> addr \<Rightarrow> store \<Rightarrow> bool" where
  "ranked rk original replacement s \<longleftrightarrow>
     (\<forall>a arr m. objects s a = CombinationObject arr m \<longrightarrow>
        (\<forall>c \<in> set (arrays s arr). rk c < rk a \<and> (c = original \<longrightarrow> rk replacement < rk a)))"

inductive_set inTree :: "store \<Rightarrow> addr \<Rightarrow> addr \<Rightarrow> addr set"
  for s :: store and original :: addr and this :: addr where
  root: "this \<noteq> original \<Longrightarrow> this \<in> inTree s original this"
| child: "a \<in> inTree s original this \<Longrightarrow> objects s a = CombinationObject arr m \<Longrightarrow>
     c \<in> set (arrays s arr) \<Longrightarrow> c \<noteq> original \<Longrightarrow> c \<in> inTree s original this"

text \<open>
  \<open>settled\<close>: every combination of the tree under \<open>this\<close> has its array spliced.
  \<open>answer\<close>: what a call on \<open>this\<close> that started in \<open>s\<close> has returned, the store
  it leaves and the object it hands back.  \<open>fromSlot\<close>: what the loop has done
  when it started in \<open>s\<close> at slot \<open>i\<close>.  \<open>returns\<close>: on every ranked store some
  amount of fuel lets the call on \<open>this\<close> return.
\<close>

definition settled :: "addr \<Rightarrow> addr \<Rightarrow> store \<Rightarrow> store \<Rightarrow> addr \<Rightarrow> bool" where
  "settled original replacement s s' this \<longleftrightarrow>
     (\<forall>a \<in> inTree s original this. \<forall>arr m. objects s a = CombinationObject arr m \<longrightarrow>
        arrays s' arr = spliced original replacement (arrays s arr))"

definition answer :: "addr \<Rightarrow> addr \<Rightarrow> store \<Rightarrow> addr \<Rightarrow> store \<times> addr \<Rightarrow> bool" where
  "answer original replacement s this result \<longleftrightarrow>
     snd result = (if this = original then replacement else this)
     \<and> (this = original \<longrightarrow> fst result = s)
     \<and> splices original replacement s (fst result)
     \<and> settled original replacement s (fst result) this"

definition fromSlot :: "addr \<Rightarrow> addr \<Rightarrow> store \<Rightarrow> store \<Rightarrow> addr \<Rightarrow> nat \<Rightarrow> bool" where
  "fromSlot original replacement s s' subList i \<longleftrightarrow>
     splices original replacement s s' \<and>
     (\<forall>j. i \<le> j \<and> j < length (arrays s subList) \<longrightarrow>
        arrays s' subList ! j = spliced original replacement (arrays s subList) ! j
        \<and> (arrays s subList ! j \<noteq> original \<longrightarrow>
             settled original replacement s s' (arrays s subList ! j)))"

definition returns :: "(addr \<Rightarrow> nat) \<Rightarrow> addr \<Rightarrow> addr \<Rightarrow> addr \<Rightarrow> bool" where
  "returns rk original replacement this \<longleftrightarrow>
     (\<forall>s. ranked rk original replacement s \<longrightarrow>
        (\<exists>fuel result. replaceQuery fuel s this original replacement = Some result))"

text \<open>
  A second way for the call to end.  \<open>unshared\<close> says that the store is a forest in
  which no combination stands in two places: the children rank below their parent,
  and the array of a child combination has its own place, the place of the
  parent's array followed by the index of the slot (\<open>original\<close> itself may stand in
  any number of slots, and nothing is asked of \<open>replacement\<close>).  \<open>below q p\<close>: the place \<open>p\<close> is
  \<open>q\<close> or lies under it.  \<open>walks\<close>: started in a store that still has the arrays
  under the receiver as \<open>s\<close> has them, the call returns and has written under the
  receiver only.
\<close>

definition below :: "nat list \<Rightarrow> nat list \<Rightarrow> bool" where
  "below q p \<longleftrightarrow> take (length q) p = q"

definition unshared :: "(addr \<Rightarrow> nat) \<Rightarrow> (addr \<Rightarrow> nat list) \<Rightarrow> addr \<Rightarrow> store \<Rightarrow> bool" where
  "unshared rk pos original s \<longleftrightarrow>
     (\<forall>a arr m. objects s a = CombinationObject arr m \<longrightarrow>
        (\<forall>j < length (arrays s arr).
           rk (arrays s arr ! j) < rk a \<and>
           (arrays s arr ! j \<noteq> original \<longrightarrow>
              (\<forall>arr' m'. objects s (arrays s arr ! j) = CombinationObject arr' m' \<longrightarrow>
                 pos arr' = pos arr @ [j]))))"

definition walks :: "(addr \<Rightarrow> nat list) \<Rightarrow> store \<Rightarrow> addr \<Rightarrow> addr \<Rightarrow> addr \<Rightarrow> bool" where
  "walks pos s original replacement this \<longleftrightarrow>
     (\<forall>sc. objects sc = objects s
        \<and> (\<forall>arr m. objects s this = CombinationObject arr m \<longrightarrow>
              (\<forall>arr'. below (pos arr) (pos arr') \<longrightarrow> arrays sc arr' = arrays s arr'))
        \<longrightarrow> (\<exists>fuel s1 returned. replaceQuery fuel sc this original replacement = Some (s1, returned)
               \<and> objects s1 = objects s
               \<and> (\<forall>arr m. objects s this = CombinationObject arr m \<longrightarrow>
                     (\<forall>arr'. \<not> below (pos arr) (pos arr') \<longrightarrow> arrays s1 arr' = arrays sc arr'))
               \<and> (\<forall>f an am. objects s this = ConditionObject f an am \<longrightarrow> s1 = sc)
               \<and> (this = original \<longrightarrow> s1 = sc)))"

section \<open>The query type registry\<close>

datatype QueryType =
    AND | OR | NOT
  | EQUALS | NOT_EQUALS
  | LESS_THAN | LESS_THAN_OR_EQUALS
  | MORE_THAN | MORE_THAN_OR_EQUALS
  | LIKE

fun getValue :: "QueryType \<Rightarrow> int" where
  "getValue AND = 0"
| "getValue OR = 1"
| "getValue NOT = 2"
| "getValue EQUALS = 10"
| "getValue NOT_EQUALS = 11"
| "getValue LESS_THAN = 20"
| "getValue LESS_THAN_OR_EQUALS = 21"
| "getValue MORE_THAN = 30"
| "getValue MORE_THAN_OR_EQUALS = 31"
| "getValue LIKE = 40"

text \<open>
  \<open>Object.keys(QueryType)\<close> without the numeric keys of the reverse mapping: the
  member names in the order of their declaration, each with its member.
\<close>

definition enumMembers :: "(string \<times> QueryType) list" where
  "enumMembers =
     [(''AND'', AND), (''OR'', OR), (''NOT'', NOT),
      (''EQUALS'', EQUALS), (''NOT_EQUALS'', NOT_EQUALS),
      (''LESS_THAN'', LESS_THAN), (''LESS_THAN_OR_EQUALS'', LESS_THAN_OR_EQUALS),
      (''MORE_THAN'', MORE_THAN), (''MORE_THAN_OR_EQUALS'', MORE_THAN_OR_EQUALS),
      (''LIKE'', LIKE)]"

text \<open>
  The two static lookup tables, \<open>null\<close> until the first use.  Every operation that
  reads them takes the registry and returns it as the call leaves it.
\<close>

record registry =
  nameToTypeMap :: "(string \<times> QueryType) list option"
  idToTypeMap :: "(int \<times> QueryType) list option"

definition emptyRegistry :: registry where
  "emptyRegistry = \<lparr>nameToTypeMap = None, idToTypeMap = None\<rparr>"

definition initializeTypeMaps :: "registry \<Rightarrow> registry" where
  "initializeTypeMaps r =
     (if nameToTypeMap r = None \<or> idToTypeMap r = None then
        (let nameToTypeMapTemp = map (\<lambda>e. (fst e, snd e)) enumMembers;
             idToTypeMapTemp = map (\<lambda>e. (getValue (snd e), snd e)) enumMembers
         in if nameToTypeMap r = None
            then r\<lparr>nameToTypeMap := Some nameToTypeMapTemp, idToTypeMap := Some idToTypeMapTemp\<rparr>
            else r)
      else r)"

definition fromID :: "registry \<Rightarrow> int \<Rightarrow> QueryType option \<times> registry" where
  "fromID r n =
     (let r' = initializeTypeMaps r in
      ((case idToTypeMap r' of None \<Rightarrow> None | Some m \<Rightarrow> map_of m n), r'))"

text \<open>
  \<open>name.toUpperCase()\<close>.  The parameter of \<open>fromName\<close> is declared a string, but
  \<open>fromTypeObject\<close> passes what \<open>toString\<close> answered, whatever it is.  On a value
  that is not a string the call of \<open>toUpperCase\<close> is the runtime's or raises.
\<close>

fun js_toUpperCase :: "runtime \<Rightarrow> jsval \<Rightarrow> js_error + jsval" where
  "js_toUpperCase rt (VStr s) = Inr (VStr (toUpperCase rt s))"
| "js_toUpperCase rt v = invoke rt v ''toUpperCase''"

text \<open>
  \<open>fromName\<close> builds the tables first.  \<open>this.nameToTypeMap?.get(...)\<close> does not
  evaluate the argument when the table is \<open>null\<close>.  The keys of the table are
  strings: a key of any other kind is not found.
\<close>

definition fromName :: "runtime \<Rightarrow> registry \<Rightarrow> jsval \<Rightarrow> (js_error + QueryType option) \<times> registry" where
  "fromName rt r name =
     (let r' = initializeTypeMaps r in
      (case nameToTypeMap r' of
         None \<Rightarrow> (Inr None, r')
       | Some m \<Rightarrow>
           (case js_toUpperCase rt name of
              Inl e \<Rightarrow> (Inl e, r')
            | Inr (VStr key) \<Rightarrow> (Inr (map_of m key), r')
            | Inr _ \<Rightarrow> (Inr None, r'))))"

text \<open>
  \<open>type.toString()\<close>: a boolean by name, a string as it is, a number in decimal
  digits when it is below \<open>10^21\<close> in size.  On \<open>null\<close> and \<open>undefined\<close> the call
  raises a \<open>TypeError\<close>, and so it does on a plain object whose own property
  \<open>toString\<close> is not a function.  On every other value the call is the runtime's:
  it answers any value or raises.
\<close>

fun js_toString :: "runtime \<Rightarrow> jsval \<Rightarrow> js_error + jsval" where
  "js_toString rt (VBool b) = Inr (VStr (if b then ''true'' else ''false''))"
| "js_toString rt (VNum n) =
     (if \<bar>n\<bar> < 10 ^ 21
      then Inr (VStr (if n < 0 then CHR ''-'' # decimal (nat (- n)) else decimal (nat n)))
      else callMethod rt (VNum n) ''toString'')"
| "js_toString rt (VStr s) = Inr (VStr s)"
| "js_toString rt v = invoke rt v ''toString''"

text \<open>
  The conversion to a string that a template literal applies to the value of
  \<open>type.toString()\<close>: a string as it is, a primitive by its name or its digits,
  any other value as the runtime has it.
\<close>

fun templateText :: "runtime \<Rightarrow> jsval \<Rightarrow> js_error + string" where
  "templateText rt (VStr s) = Inr s"
| "templateText rt VNull = Inr ''null''"
| "templateText rt VUndefined = Inr ''undefined''"
| "templateText rt (VBool b) = Inr (if b then ''true'' else ''false'')"
| "templateText rt (VNum n) =
     (if \<bar>n\<bar> < 10 ^ 21
      then Inr (if n < 0 then CHR ''-'' # decimal (nat (- n)) else decimal (nat n))
      else toText rt (VNum n))"
| "templateText rt v = toText rt v"

definition invalidQueryType :: "string \<Rightarrow> js_error" where
  "invalidQueryType shown = Error (''Invalid QueryType for: '' @ shown)"

text \<open>
  \<open>fromTypeObject\<close>.  \<open>lookupOf\<close> is the \<open>if (typeof type === 'number')\<close> statement
  that sets \<open>mType\<close>, \<open>invalidOf\<close> the \<open>throw\<close> statement with its message, which
  calls \<open>type.toString()\<close> once more.
\<close>

definition lookupOf :: "runtime \<Rightarrow> registry \<Rightarrow> jsval \<Rightarrow> (js_error + QueryType option) \<times> registry" where
  "lookupOf rt r type =
     (case type of
        VNum n \<Rightarrow> (case fromID r n of (mType, r') \<Rightarrow> (Inr mType, r'))
      | _ \<Rightarrow>
          (case js_toString rt type of
             Inl e \<Rightarrow> (Inl e, r)
           | Inr name \<Rightarrow> fromName rt r name))"

definition invalidOf :: "runtime \<Rightarrow> jsval \<Rightarrow> js_error" where
  "invalidOf rt type =
     (case js_toString rt type of
        Inl e \<Rightarrow> e
      | Inr shown \<Rightarrow>
          (case templateText rt shown of
             Inl e \<Rightarrow> e
           | Inr s \<Rightarrow> invalidQueryType s))"

definition fromTypeObject :: "runtime \<Rightarrow> registry \<Rightarrow> jsval \<Rightarrow> (js_error + QueryType option) \<times> registry" where
  "fromTypeObject rt r type =
     (if strict_eq type VNull then (Inr None, r)
      else
        (case lookupOf rt r type of
           (Inl e, r') \<Rightarrow> (Inl e, r')
         | (Inr (Some mType), r') \<Rightarrow> (Inr (Some mType), r')
         | (Inr None, r') \<Rightarrow> (Inl (invalidOf rt type), r')))"

text \<open>
  The registry as the program can have it: untouched, or with both tables built.
\<close>

definition builtRegistry :: registry where
  "builtRegistry = initializeTypeMaps emptyRegistry"

text \<open>
  \<open>matchesType\<close> is the match \<open>fromTypeObject\<close> is meant to find: for a number the
  member with that id, for any other value the member whose name is the upper case
  of the string that \<open>toString\<close> gives.
\<close>

definition matchesType :: "runtime \<Rightarrow> jsval \<Rightarrow> QueryType \<Rightarrow> bool" where
  "matchesType rt v q =
     (case v of
        VNum n \<Rightarrow> getValue q = n
      | _ \<Rightarrow> (case js_toString rt v of
                 Inl e \<Rightarrow> False
               | Inr name \<Rightarrow>
                   (case js_toUpperCase rt name of
                      Inr (VStr key) \<Rightarrow> (key, q) \<in> set enumMembers
                    | _ \<Rightarrow> False)))"

section \<open>Properties\<close>

subsection \<open>Evaluation of a combination\<close>

lemmas string_defs = toLowerCase_def toUpperCase_def ascii_def lowerChar_def upperChar_def
  upperLetters_def lowerLetters_def

lemmas leaf_defs = Condition_test_def Condition_testWithArgMap_def getAndTestFieldValue_def
  getArgumentValue_def testValues_def mapValue_def defaultFallback_def

lemma combinationLoop_result:
  "fst (combinationLoop f cs r called) =
     (case find (\<lambda>c. f c \<noteq> Inr True) cs of
        None \<Rightarrow> Inr (if cs = [] then r else True)
      | Some c \<Rightarrow> (case f c of Inl e \<Rightarrow> Inl e | Inr b \<Rightarrow> Inr False))"
  by (induction cs arbitrary: r called) (auto split: sum.splits option.splits)

lemma combinationLoop_true:
  "fst (combinationLoop f cs r called) = Inr True \<longleftrightarrow>
     (if cs = [] then r else \<forall>c \<in> set cs. f c = Inr True)"
  by (induction cs arbitrary: r called) (auto split: sum.splits)

lemma combinationLoop_called:
  "snd (combinationLoop f cs r called) =
     called @ take (Suc (length (takeWhile (\<lambda>c. f c = Inr True) cs))) cs"
  by (induction cs arbitrary: r called) (auto split: sum.splits)

text \<open>
  Claim C1.  \<open>CombinationBase.testWithArgMap\<close> starts with \<open>result = false\<close> and
  visits the children in order.  A child that matches sets \<open>result = true\<close> and the
  loop goes on; the first child that does not match ends the call, with \<open>false\<close>
  or with the error the child raised, and no later child is called: the children
  called are the matching prefix and the first child that does not match.  So the
  call answers \<open>true\<close> exactly when there is a child and every child matches, and a
  combination with no children answers \<open>false\<close> for every candidate and argument
  map.
\<close>

theorem combination_testWithArgMap:
  "(testWithArgMap rt (Combination i children m) t argMap = Inr True \<longleftrightarrow>
      children \<noteq> [] \<and> (\<forall>child \<in> set children. testWithArgMap rt child t argMap = Inr True))
   \<and> testWithArgMap rt (Combination i children m) t argMap =
      (case find (\<lambda>child. testWithArgMap rt child t argMap \<noteq> Inr True) children of
         None \<Rightarrow> Inr (children \<noteq> [])
       | Some child \<Rightarrow>
           (case testWithArgMap rt child t argMap of Inl e \<Rightarrow> Inl e | Inr b \<Rightarrow> Inr False))
   \<and> calledChildren rt (Combination i children m) t argMap =
      take (Suc (length (takeWhile (\<lambda>child. testWithArgMap rt child t argMap = Inr True) children)))
        children
   \<and> testWithArgMap rt (Combination i [] m) t argMap = Inr False"
proof -
  have yes: "testWithArgMap rt (Combination i children m) t argMap = Inr True \<longleftrightarrow>
      children \<noteq> [] \<and> (\<forall>child \<in> set children. testWithArgMap rt child t argMap = Inr True)"
    by (simp add: combinationLoop_true)
  have outcome: "testWithArgMap rt (Combination i children m) t argMap =
      (case find (\<lambda>child. testWithArgMap rt child t argMap \<noteq> Inr True) children of
         None \<Rightarrow> Inr (children \<noteq> [])
       | Some child \<Rightarrow>
           (case testWithArgMap rt child t argMap of Inl e \<Rightarrow> Inl e | Inr b \<Rightarrow> Inr False))"
    by (simp add: combinationLoop_result split: option.splits)
  have called: "calledChildren rt (Combination i children m) t argMap =
      take (Suc (length (takeWhile (\<lambda>child. testWithArgMap rt child t argMap = Inr True) children)))
        children"
    by (simp add: combinationLoop_called)
  have none: "testWithArgMap rt (Combination i [] m) t argMap = Inr False"
    by simp
  from yes outcome called none show ?thesis by blast
qed

theorem combination_testWithArgMap_witness:
  "testWithArgMap exampleRuntime
     (Combination 1
        [Condition 2 (Some ''age'') (Some ''0'') None,
         Condition 3 (Some ''this'') (Some ''0'') None,
         Condition 4 (Some ''age'') (Some ''0'') None] (0, []))
     (VNum 5) None = Inr False
   \<and> calledChildren exampleRuntime
     (Combination 1
        [Condition 2 (Some ''age'') (Some ''0'') None,
         Condition 3 (Some ''this'') (Some ''0'') None,
         Condition 4 (Some ''age'') (Some ''0'') None] (0, []))
     (VNum 5) None =
     [Condition 2 (Some ''age'') (Some ''0'') None, Condition 3 (Some ''this'') (Some ''0'') None]
   \<and> testWithArgMap exampleRuntime
     (Combination 5 [Condition 2 (Some ''age'') (Some ''0'') None] (0, [])) (VNum 5) None = Inr True"
proof -
  have yes: "testWithArgMap exampleRuntime (Condition 2 (Some ''age'') (Some ''0'') None) (VNum 5) None
      = Inr True"
    by (simp add: leaf_defs string_defs)
  have no: "testWithArgMap exampleRuntime (Condition 3 (Some ''this'') (Some ''0'') None) (VNum 5) None
      = Inr False"
    by (simp add: leaf_defs string_defs)
  show ?thesis
    using yes no
      combination_testWithArgMap [of exampleRuntime 1 "[Condition 2 (Some ''age'') (Some ''0'') None,
         Condition 3 (Some ''this'') (Some ''0'') None,
         Condition 4 (Some ''age'') (Some ''0'') None]" "(0, [])" "VNum 5" None]
      combination_testWithArgMap [of exampleRuntime 5 "[Condition 2 (Some ''age'') (Some ''0'') None]"
         "(0, [])" "VNum 5" None]
    by simp
qed

subsection \<open>The stored argument map\<close>

text \<open>
  The argument map decides the outcome of a leaf.  The argument is read with
  \<open>argMap[key]\<close>, which sees the members of the map and not its entries: on a leaf
  whose argument name is \<open>size\<close> and whose stored map has two entries, a candidate
  whose field is \<open>2\<close> matches under \<open>test\<close>, and it does not match under
  \<open>testWithArgMap\<close> with an empty map or with no map.
\<close>

lemma leaf_reads_argument_map:
  "test exampleRuntime
     (Condition 2 (Some ''count'') (Some ''size'') (Some (7, [(VStr ''a'', VNum 1), (VStr ''b'', VNum 2)])))
     (VMap 8 [(VStr ''count'', VNum 2)]) = Inr True
   \<and> testWithArgMap exampleRuntime
     (Condition 2 (Some ''count'') (Some ''size'') (Some (7, [(VStr ''a'', VNum 1), (VStr ''b'', VNum 2)])))
     (VMap 8 [(VStr ''count'', VNum 2)]) (Some (9, [])) = Inr False
   \<and> testWithArgMap exampleRuntime
     (Condition 2 (Some ''count'') (Some ''size'') (Some (7, [(VStr ''a'', VNum 1), (VStr ''b'', VNum 2)])))
     (VMap 8 [(VStr ''count'', VNum 2)]) None = Inr False"
  by (simp add: leaf_defs string_defs exampleRuntime_def)

text \<open>
  The map a combination stored is the field \<open>_argMap\<close>.  The accessor
  \<open>defaultArgumentMap()\<close> is another thing: \<open>CombinationBase\<close> does not override
  it, so on a combination it answers \<open>null\<close>, and \<open>testWithArgMap\<close> with that
  \<open>null\<close> is not \<open>test\<close>.
\<close>

lemma combination_accessor_is_null:
  "test exampleRuntime
     (Combination 1
        [Condition 2 (Some ''count'') (Some ''size'') None]
        (7, [(VStr ''a'', VNum 1), (VStr ''b'', VNum 2)]))
     (VMap 8 [(VStr ''count'', VNum 2)]) = Inr True
   \<and> defaultArgumentMap
     (Combination 1
        [Condition 2 (Some ''count'') (Some ''size'') None]
        (7, [(VStr ''a'', VNum 1), (VStr ''b'', VNum 2)])) = None
   \<and> testWithArgMap exampleRuntime
     (Combination 1
        [Condition 2 (Some ''count'') (Some ''size'') None]
        (7, [(VStr ''a'', VNum 1), (VStr ''b'', VNum 2)]))
     (VMap 8 [(VStr ''count'', VNum 2)]) None = Inr False"
  by (simp add: leaf_defs string_defs exampleRuntime_def)

text \<open>
  Claim C2.  For a leaf and for a combination alike, on every runtime,
  \<open>test(candidate)\<close> has the outcome of \<open>testWithArgMap(candidate, m)\<close> when \<open>m\<close>
  is the argument map the node stored at construction (\<open>_argMap\<close>): the same
  boolean, or the same error.  The map matters to the outcome
  (\<open>leaf_reads_argument_map\<close>), so the equation holds of the stored map and not
  of any other.
\<close>

theorem test_is_testWithArgMap_on_stored_map:
  "test rt q t = testWithArgMap rt q t (storedArgMap q)"
  by (cases q) (simp_all add: Condition_test_def Condition_testWithArgMap_def)

subsection \<open>The path array of fetchNestedValue\<close>

lemma valueAt_step:
  "propertyOf rt obj key = Inr val \<Longrightarrow>
     valueAt rt obj (take (Suc m) (key # rest)) = valueAt rt val (take m rest)"
  by simp

lemma fetchNestedArray_walk:
  "\<exists>n \<le> length ks.
      snd (fetchNestedArray rt obj ks fallback) = drop n ks
    \<and> (\<forall>m < n. readable (valueAt rt obj (take m ks)))
    \<and> (n < length ks \<longrightarrow> \<not> readable (valueAt rt obj (take n ks)))
    \<and> fst (fetchNestedArray rt obj ks fallback) =
        (if n = 0 then Inr fallback
         else (case valueAt rt obj (take n ks) of
                 Inl e \<Rightarrow> Inl e
               | Inr v \<Rightarrow> Inr (if loose_null v then fallback else v)))"
proof (induction ks arbitrary: obj)
  case Nil
  then show ?case by simp
next
  case (Cons key rest)
  show ?case
  proof (cases "loose_null obj")
    case True
    then show ?thesis by (intro exI [of _ 0]) (simp add: readable_def)
  next
    case root: False
    show ?thesis
    proof (cases "propertyOf rt obj key")
      case (Inl e)
      with root show ?thesis by (intro exI [of _ 1]) (simp add: readable_def)
    next
      case (Inr val)
      show ?thesis
      proof (cases "loose_null val \<or> rest = []")
        case True
        with root Inr show ?thesis
          by (intro exI [of _ 1]) (cases val; auto simp: readable_def)
      next
        case descend: False
        then have val: "val \<noteq> VNull" "val \<noteq> VUndefined" "rest \<noteq> []" by auto
        from Cons.IH [of val] obtain n where n: "n \<le> length rest"
          "snd (fetchNestedArray rt val rest fallback) = drop n rest"
          "\<forall>m < n. readable (valueAt rt val (take m rest))"
          "n < length rest \<longrightarrow> \<not> readable (valueAt rt val (take n rest))"
          "fst (fetchNestedArray rt val rest fallback) =
             (if n = 0 then Inr fallback
              else (case valueAt rt val (take n rest) of
                      Inl e \<Rightarrow> Inl e
                    | Inr v \<Rightarrow> Inr (if loose_null v then fallback else v)))"
          by blast
        from descend n(3,4) have pos: "0 < n"
          by (cases n) (auto simp: readable_def)
        have front: "\<forall>m < Suc n. readable (valueAt rt obj (take m (key # rest)))"
        proof (intro allI impI)
          fix m assume "m < Suc n"
          then show "readable (valueAt rt obj (take m (key # rest)))"
            using root Inr n(3) by (cases m) (simp_all add: readable_def)
        qed
        show ?thesis
        proof (intro exI [of _ "Suc n"] conjI)
          show "Suc n \<le> length (key # rest)" using n(1) by simp
          show "snd (fetchNestedArray rt obj (key # rest) fallback) = drop (Suc n) (key # rest)"
            using root Inr val n(2) by simp
          show "\<forall>m < Suc n. readable (valueAt rt obj (take m (key # rest)))" by (rule front)
          show "Suc n < length (key # rest) \<longrightarrow>
              \<not> readable (valueAt rt obj (take (Suc n) (key # rest)))"
            using Inr n(4) by simp
          show "fst (fetchNestedArray rt obj (key # rest) fallback) =
              (if Suc n = 0 then Inr fallback
               else (case valueAt rt obj (take (Suc n) (key # rest)) of
                       Inl e \<Rightarrow> Inl e
                     | Inr v \<Rightarrow> Inr (if loose_null v then fallback else v)))"
            using root Inr val n(5) pos by simp
        qed
      qed
    qed
  qed
qed

lemma takeWhile_upt_length:
  assumes "n \<le> len" and "\<forall>m < n. P m" and "n < len \<longrightarrow> \<not> P n"
  shows "length (takeWhile P [0..<len]) = n"
proof -
  from assms(1) obtain k where len: "len = n + k" by (auto simp: le_iff_add)
  have split: "[0..<n + k] = [0..<n] @ [n..<n + k]"
    by (rule upt_add_eq_append) simp
  have stop: "takeWhile P [n..<n + k] = []"
  proof (cases k)
    case 0
    then show ?thesis by simp
  next
    case (Suc k')
    with assms(3) len have "\<not> P n" by simp
    with Suc show ?thesis by (simp add: upt_conv_Cons del: upt_Suc)
  qed
  from assms(2) have "takeWhile P ([0..<n] @ [n..<n + k]) = [0..<n] @ takeWhile P [n..<n + k]"
    by (intro takeWhile_append2) simp
  with split stop len show ?thesis by simp
qed

lemma reached_Nil: "reached rt obj [] = []"
  by (simp add: reached_def)

lemma reached_Cons:
  "reached rt obj (key # rest) =
     Inr obj # (case propertyOf rt obj key of
                  Inl e \<Rightarrow> map (\<lambda>k. Inl e) rest
                | Inr val \<Rightarrow> reached rt val rest)"
proof -
  have "[0..<Suc (length rest)] = 0 # map Suc [0..<length rest]"
    by (simp add: upt_conv_Cons map_Suc_upt del: upt_Suc)
  then show ?thesis
    by (simp add: reached_def comp_def map_replicate_const split: sum.splits)
qed

lemma levelsVisited_length:
  assumes "n \<le> length ks" and "\<forall>m < n. readable (valueAt rt obj (take m ks))"
    and "n < length ks \<longrightarrow> \<not> readable (valueAt rt obj (take n ks))"
  shows "length (levelsVisited rt obj ks) = n"
proof -
  have "length (levelsVisited rt obj ks) =
      length (takeWhile (\<lambda>m. readable (valueAt rt obj (take m ks))) [0..<length ks])"
    by (simp add: levelsVisited_def reached_def takeWhile_map comp_def)
  also have "\<dots> = n" using assms by (rule takeWhile_upt_length)
  finally show ?thesis .
qed

text \<open>
  What the call returns, by the levels the path goes through: the fallback when the
  root cannot be read from; otherwise the value read with the last key taken, the
  fallback in its place when that value is \<open>null\<close> or \<open>undefined\<close>, the error when
  that read raised.
\<close>

lemma fetchNestedValue_returns:
  "fst (fetchNestedValue rt obj (PathArray ks) fallback) =
     (if levelsVisited rt obj ks = [] then Inr (defaultFallback fallback)
      else (case valueAt rt obj (take (length (levelsVisited rt obj ks)) ks) of
              Inl e \<Rightarrow> Inl e
            | Inr v \<Rightarrow> Inr (if loose_null v then defaultFallback fallback else v)))"
proof -
  from fetchNestedArray_walk [of ks rt obj "defaultFallback fallback"]
  obtain n where n: "n \<le> length ks"
    "\<forall>m < n. readable (valueAt rt obj (take m ks))"
    "n < length ks \<longrightarrow> \<not> readable (valueAt rt obj (take n ks))"
    "fst (fetchNestedArray rt obj ks (defaultFallback fallback)) =
        (if n = 0 then Inr (defaultFallback fallback)
         else (case valueAt rt obj (take n ks) of
                 Inl e \<Rightarrow> Inl e
               | Inr v \<Rightarrow> Inr (if loose_null v then defaultFallback fallback else v)))"
    by blast
  from n(1,2,3) have count: "length (levelsVisited rt obj ks) = n"
    by (rule levelsVisited_length)
  then have "levelsVisited rt obj ks = [] \<longleftrightarrow> n = 0" by auto
  with n(4) count show ?thesis by (simp add: split_beta)
qed

text \<open>
  Claim C5, as stated, fails: \<open>fetchNestedValue\<close> shifts the keys off the array it is
  given.  On the object \<open>{a: {b: 5}}\<close> and the array \<open>["a", "b"]\<close> the call returns
  \<open>5\<close> and leaves the caller's array empty.  The two keys are own properties, so
  no runtime has a say in it.
\<close>

theorem fetchNestedValue_mutates_array:
  "fetchNestedValue exampleRuntime (VObject 1 [(''a'', VObject 2 [(''b'', VNum 5)])])
       (PathArray [''a'', ''b'']) (VNum (- 1)) = (Inr (VNum 5), PathArray [])
   \<and> PathArray [] \<noteq> PathArray [''a'', ''b'']"
  by (simp add: defaultFallback_def)

text \<open>
  Claim C5, amended.  For a pre-split path the call consumes the caller's array: it
  removes one leading key for every level it visits, a level being a value that a
  key is read from.  The levels are the root and the values the keys lead to, in
  order, up to the first that cannot be read from: one that is \<open>null\<close> or
  \<open>undefined\<close>, or one whose read raised.  The array left is the array given
  without as many leading keys as there are levels visited; it is the same array
  exactly when the root is \<open>null\<close> or \<open>undefined\<close> or the array is empty.  A string
  path is left as it was.
\<close>

theorem fetchNestedValue_consumes_array:
  "snd (fetchNestedValue rt obj (PathArray ks) fallback) =
      PathArray (drop (length (levelsVisited rt obj ks)) ks)
   \<and> (levelsVisited rt obj ks = [] \<longleftrightarrow> loose_null obj \<or> ks = [])
   \<and> length (levelsVisited rt obj ks) \<le> length ks
   \<and> snd (fetchNestedValue rt obj (PathString s) fallback) = PathString s"
proof -
  from fetchNestedArray_walk [of ks rt obj "defaultFallback fallback"]
  obtain n where n: "n \<le> length ks"
    "snd (fetchNestedArray rt obj ks (defaultFallback fallback)) = drop n ks"
    "\<forall>m < n. readable (valueAt rt obj (take m ks))"
    "n < length ks \<longrightarrow> \<not> readable (valueAt rt obj (take n ks))"
    by blast
  from n(1,3,4) have count: "length (levelsVisited rt obj ks) = n" by (rule levelsVisited_length)
  have left: "snd (fetchNestedValue rt obj (PathArray ks) fallback) =
      PathArray (drop (length (levelsVisited rt obj ks)) ks)"
    using n(2) count by (simp add: split_beta)
  have none: "levelsVisited rt obj ks = [] \<longleftrightarrow> loose_null obj \<or> ks = []"
    by (cases ks) (simp_all add: levelsVisited_def reached_Nil reached_Cons readable_def)
  from left none n(1) count show ?thesis by simp
qed

theorem fetchNestedValue_consumes_array_witness:
  "snd (fetchNestedValue exampleRuntime (VObject 1 [(''a'', VStr ''xyz'')])
       (PathArray [''a'', ''1'', ''q'']) (VNum (- 1))) = PathArray []
   \<and> levelsVisited exampleRuntime (VObject 1 [(''a'', VStr ''xyz'')]) [''a'', ''1'', ''q'']
      = [Inr (VObject 1 [(''a'', VStr ''xyz'')]), Inr (VStr ''xyz''), Inr (VStr ''y'')]"
proof -
  have levels: "levelsVisited exampleRuntime (VObject 1 [(''a'', VStr ''xyz'')]) [''a'', ''1'', ''q'']
      = [Inr (VObject 1 [(''a'', VStr ''xyz'')]), Inr (VStr ''xyz''), Inr (VStr ''y'')]"
    by (simp add: levelsVisited_def reached_Nil reached_Cons readable_def ascii_def
        decimal.simps digitChar_def exampleRuntime_def)
  with fetchNestedValue_consumes_array
    [of exampleRuntime "VObject 1 [(''a'', VStr ''xyz'')]" "[''a'', ''1'', ''q'']" "VNum (- 1)"]
  show ?thesis by simp
qed

subsection \<open>Resolution of a dynamic type value\<close>

text \<open>
  Claim C9.  \<open>fromTypeObject\<close> is to raise the error for an invalid query type on
  every value that is not \<open>null\<close> and that no \<open>QueryType\<close> matches.  On
  \<open>undefined\<close>, which is not \<open>null\<close> and matches nothing, the guard
  \<open>type === null\<close> lets the value pass, it is not a number, and
  \<open>type.toString()\<close> raises a \<open>TypeError\<close> before any lookup, on every runtime and
  whatever the state of the lookup tables; the error for an invalid query type is
  never built.
\<close>

theorem fromTypeObject_undefined:
  "fromTypeObject rt r VUndefined = (Inl TypeError, r)
   \<and> (\<forall>q. \<not> matchesType rt VUndefined q)
   \<and> TypeError \<noteq> invalidQueryType shown"
  by (simp add: fromTypeObject_def lookupOf_def matchesType_def invalidQueryType_def)

lemma initializeTypeMaps_ready:
  "r = emptyRegistry \<or> r = builtRegistry \<Longrightarrow> initializeTypeMaps r = builtRegistry"
  by (auto simp: builtRegistry_def initializeTypeMaps_def emptyRegistry_def Let_def)

lemma builtRegistry_tables:
  "nameToTypeMap builtRegistry = Some enumMembers"
  "idToTypeMap builtRegistry = Some (map (\<lambda>e. (getValue (snd e), snd e)) enumMembers)"
  by (simp_all add: builtRegistry_def initializeTypeMaps_def emptyRegistry_def Let_def)

lemma idTable_lookup:
  "map_of (map (\<lambda>e. (getValue (snd e), snd e)) enumMembers) n = Some q \<longleftrightarrow> getValue q = n"
  by (cases q) (auto simp: enumMembers_def)

lemma nameTable_lookup:
  "map_of enumMembers k = Some q \<longleftrightarrow> (k, q) \<in> set enumMembers"
  by (cases q) (auto simp: enumMembers_def)

lemma fromID_ready:
  "r = emptyRegistry \<or> r = builtRegistry \<Longrightarrow> fst (fromID r n) = Some q \<longleftrightarrow> getValue q = n"
  by (simp add: fromID_def initializeTypeMaps_ready builtRegistry_tables idTable_lookup Let_def)

lemma fromName_ready:
  assumes "r = emptyRegistry \<or> r = builtRegistry"
  shows "fst (fromName rt r name) = Inr (Some q) \<longleftrightarrow>
     (\<exists>key. js_toUpperCase rt name = Inr (VStr key) \<and> (key, q) \<in> set enumMembers)"
  using assms
  by (auto simp: fromName_def initializeTypeMaps_ready builtRegistry_tables nameTable_lookup
      Let_def split: sum.splits jsval.splits)

text \<open>
  With the tables untouched or built, the lookup finds a member exactly when the
  member matches the value, and then \<open>fromTypeObject\<close> returns it.
\<close>

lemma lookupOf_matches:
  assumes "r = emptyRegistry \<or> r = builtRegistry"
  shows "fst (lookupOf rt r v) = Inr (Some q) \<longleftrightarrow> matchesType rt v q"
proof (cases v)
  case (VNum n)
  with fromID_ready [OF assms, of n q] show ?thesis
    by (simp add: lookupOf_def matchesType_def split_beta)
next
  case VNull
  then show ?thesis by (simp add: lookupOf_def matchesType_def)
next
  case VUndefined
  then show ?thesis by (simp add: lookupOf_def matchesType_def)
next
  case (VBool b)
  with fromName_ready [OF assms, of rt "VStr (if b then ''true'' else ''false'')" q] show ?thesis
    by (auto simp: lookupOf_def matchesType_def split: sum.splits jsval.splits)
next
  case (VStr s)
  with fromName_ready [OF assms, of rt "VStr s" q] show ?thesis
    by (auto simp: lookupOf_def matchesType_def split: sum.splits jsval.splits)
next
  case (VObject a props)
  show ?thesis
  proof (cases "js_toString rt v")
    case (Inl e)
    with VObject show ?thesis by (simp add: lookupOf_def matchesType_def)
  next
    case (Inr name)
    with VObject fromName_ready [OF assms, of rt name q] show ?thesis
      by (auto simp: lookupOf_def matchesType_def split: sum.splits jsval.splits)
  qed
next
  case (VMap a es)
  show ?thesis
  proof (cases "js_toString rt v")
    case (Inl e)
    with VMap show ?thesis by (simp add: lookupOf_def matchesType_def)
  next
    case (Inr name)
    with VMap fromName_ready [OF assms, of rt name q] show ?thesis
      by (auto simp: lookupOf_def matchesType_def split: sum.splits jsval.splits)
  qed
next
  case (VOther a)
  show ?thesis
  proof (cases "js_toString rt v")
    case (Inl e)
    with VOther show ?thesis by (simp add: lookupOf_def matchesType_def)
  next
    case (Inr name)
    with VOther fromName_ready [OF assms, of rt name q] show ?thesis
      by (auto simp: lookupOf_def matchesType_def split: sum.splits jsval.splits)
  qed
qed

lemma fromTypeObject_matched:
  assumes "r = emptyRegistry \<or> r = builtRegistry" and "matchesType rt v q"
  shows "fst (fromTypeObject rt r v) = Inr (Some q)"
proof -
  from assms have found: "fst (lookupOf rt r v) = Inr (Some q)"
    by (simp add: lookupOf_matches)
  from assms(2) have "v \<noteq> VNull" by (auto simp: matchesType_def)
  with found show ?thesis
    by (cases "lookupOf rt r v") (simp add: fromTypeObject_def)
qed

text \<open>
  When no member matches a value whose \<open>toString\<close> gives a string,
  \<open>fromTypeObject\<close> raises the error for an invalid query type, and the message
  shows that string.
\<close>

lemma fromTypeObject_unmatched:
  assumes ready: "r = emptyRegistry \<or> r = builtRegistry"
    and shown: "js_toString rt v = Inr (VStr shown)"
    and none: "\<forall>q. \<not> matchesType rt v q"
  shows "fst (fromTypeObject rt r v) = Inl (invalidQueryType shown)"
proof -
  from shown have present: "v \<noteq> VNull" by auto
  have message: "invalidOf rt v = invalidQueryType shown"
    using shown by (simp add: invalidOf_def)
  have returned: "\<exists>found. fst (lookupOf rt r v) = Inr found"
    using shown
    by (cases v) (simp_all add: lookupOf_def fromName_def initializeTypeMaps_ready [OF ready]
        builtRegistry_tables split_beta Let_def)
  then obtain found where found: "fst (lookupOf rt r v) = Inr found" by blast
  from none lookupOf_matches [OF ready, of rt v] found have "found = None"
    by (cases found) auto
  with found present message show ?thesis
    by (cases "lookupOf rt r v") (simp add: fromTypeObject_def)
qed

text \<open>
  Names are matched without regard to case and numbers by id: \<open>"less_Than"\<close>
  resolves to \<open>LESS_THAN\<close>, \<open>31\<close> to \<open>MORE_THAN_OR_EQUALS\<close>, and \<open>32\<close>, the id of no
  member, raises the error that shows \<open>32\<close>.
\<close>

lemma fromTypeObject_examples:
  "fst (fromTypeObject rt emptyRegistry (VStr ''less_Than'')) = Inr (Some LESS_THAN)
   \<and> fst (fromTypeObject rt emptyRegistry (VNum 31)) = Inr (Some MORE_THAN_OR_EQUALS)
   \<and> fst (fromTypeObject rt emptyRegistry (VNum 32)) = Inl (invalidQueryType ''32'')"
  by (simp add: fromTypeObject_def lookupOf_def invalidOf_def fromID_def fromName_def
      initializeTypeMaps_def emptyRegistry_def enumMembers_def decimal.simps digitChar_def
      Let_def string_defs)

text \<open>
  Claim C10.  On \<open>null\<close>, \<open>fromTypeObject\<close> returns \<open>null\<close>: no error is raised and
  the lookup tables are not touched.  The error for an invalid query type is raised
  only on a value that is not \<open>null\<close> and that no \<open>QueryType\<close> matches.
\<close>

theorem fromTypeObject_null:
  "fromTypeObject rt r VNull = (Inr None, r)
   \<and> ((r = emptyRegistry \<or> r = builtRegistry)
        \<and> fst (fromTypeObject rt r v) = Inl (invalidQueryType shown)
      \<longrightarrow> v \<noteq> VNull \<and> (\<forall>q. \<not> matchesType rt v q))"
proof -
  have null: "fromTypeObject rt r VNull = (Inr None, r)"
    by (simp add: fromTypeObject_def)
  have only: "v \<noteq> VNull \<and> (\<forall>q. \<not> matchesType rt v q)"
    if ready: "r = emptyRegistry \<or> r = builtRegistry"
      and raised: "fst (fromTypeObject rt r v) = Inl (invalidQueryType shown)"
  proof -
    from raised null have present: "v \<noteq> VNull" by auto
    have "\<not> matchesType rt v q" for q
    proof
      assume "matchesType rt v q"
      with ready have "fst (fromTypeObject rt r v) = Inr (Some q)"
        by (rule fromTypeObject_matched)
      with raised show False by simp
    qed
    with present show ?thesis by blast
  qed
  from null only show ?thesis by blast
qed

theorem fromTypeObject_null_witness:
  "fromTypeObject exampleRuntime emptyRegistry VNull = (Inr None, emptyRegistry)
   \<and> fst (fromTypeObject exampleRuntime emptyRegistry (VNum 32)) = Inl (invalidQueryType ''32'')
   \<and> \<not> matchesType exampleRuntime (VNum 32) MORE_THAN_OR_EQUALS"
proof -
  have raised: "fst (fromTypeObject exampleRuntime emptyRegistry (VNum 32))
      = Inl (invalidQueryType ''32'')"
    by (simp add: fromTypeObject_def lookupOf_def invalidOf_def fromID_def initializeTypeMaps_def
        emptyRegistry_def enumMembers_def decimal.simps digitChar_def Let_def)
  with fromTypeObject_null [of exampleRuntime emptyRegistry "VNum 32" "''32''"] show ?thesis
    by blast
qed

subsection \<open>Construction of a combination\<close>

text \<open>
  Claim C8, as stated, fails: in the three-argument form a value that is not a
  node is skipped, and the construction succeeds.  With a node, a \<open>Map\<close> and a
  \<open>Map\<close> the constructor returns a combination of the one node.
\<close>

theorem CombinationBase_skips_non_query:
  "CombinationBase 9 (ArgQuery (Condition 2 (Some ''age'') (Some ''0'') None))
      (ArgValue (VMap 1 [])) (ArgValue (VMap 1 []))
     = Inr (Combination 9 [Condition 2 (Some ''age'') (Some ''0'') None] (1, []))"
  by (simp add: CombinationBase_def)

text \<open>
  Claim C8, amended.  The construction succeeds exactly when the first argument is
  an array and the second a \<open>Map\<close> (the children are the array), or else when the
  third argument is a \<open>Map\<close>; then the children are those of the first two
  arguments that are nodes, in order, and any other value is left out.  Every other
  shape raises the error for invalid arguments.
\<close>

theorem CombinationBase_accepts:
  "(arg1 = ArgArray children \<and> asMap arg2 = Some argMap \<longrightarrow>
      CombinationBase this arg1 arg2 arg3 = Inr (Combination this children argMap))
   \<and> (\<not> (isArrayArg arg1 \<and> asMap arg2 \<noteq> None) \<and> asMap arg3 = Some argMap \<longrightarrow>
      CombinationBase this arg1 arg2 arg3 =
        Inr (Combination this (asQuery arg1 @ asQuery arg2) argMap))
   \<and> (\<not> (isArrayArg arg1 \<and> asMap arg2 \<noteq> None) \<and> asMap arg3 = None \<longrightarrow>
      CombinationBase this arg1 arg2 arg3 = Inl invalidArguments)"
  by (cases arg1; cases "asMap arg2"; cases "asMap arg3")
     (simp_all add: CombinationBase_def invalidArguments_def)

theorem CombinationBase_accepts_witness:
  "CombinationBase 9 (ArgArray [Condition 2 (Some ''age'') (Some ''0'') None])
      (ArgValue (VMap 1 [])) (ArgValue VUndefined)
     = Inr (Combination 9 [Condition 2 (Some ''age'') (Some ''0'') None] (1, []))
   \<and> CombinationBase 9 (ArgValue VNull) (ArgQuery (Condition 2 (Some ''age'') (Some ''0'') None))
      (ArgValue (VMap 1 []))
     = Inr (Combination 9 [Condition 2 (Some ''age'') (Some ''0'') None] (1, []))
   \<and> CombinationBase 9 (ArgQuery (Condition 2 (Some ''age'') (Some ''0'') None))
      (ArgQuery (Condition 3 (Some ''name'') (Some ''1'') None)) (ArgValue VUndefined)
     = Inl invalidArguments"
  using
    CombinationBase_accepts [of "ArgArray [Condition 2 (Some ''age'') (Some ''0'') None]"
      "[Condition 2 (Some ''age'') (Some ''0'') None]" "ArgValue (VMap 1 [])" "(1, [])" 9
      "ArgValue VUndefined"]
    CombinationBase_accepts [of "ArgValue VNull" "[]"
      "ArgQuery (Condition 2 (Some ''age'') (Some ''0'') None)" "(1, [])" 9 "ArgValue (VMap 1 [])"]
    CombinationBase_accepts [of "ArgQuery (Condition 2 (Some ''age'') (Some ''0'') None)" "[]"
      "ArgQuery (Condition 3 (Some ''name'') (Some ''1'') None)" "(1, [])" 9 "ArgValue VUndefined"]
  by simp

subsection \<open>Replacement in the store\<close>

lemma treeAt_ident: "treeAt depth s a = Some q \<Longrightarrow> ident q = a"
  by (cases depth) (auto split: object.splits if_splits)

lemma splices_refl: "splices original replacement s s"
  by (simp add: splices_def)

lemma splices_trans:
  assumes "splices original replacement s1 s2" and "splices original replacement s2 s3"
  shows "splices original replacement s1 s3"
  unfolding splices_def
proof (intro conjI allI impI)
  show "objects s3 = objects s1" using assms by (simp add: splices_def)
next
  fix arr
  show "length (arrays s3 arr) = length (arrays s1 arr)" using assms by (simp add: splices_def)
next
  fix arr j
  assume j: "j < length (arrays s1 arr)"
  with assms(1) have a: "arrays s2 arr ! j = arrays s1 arr ! j \<or>
      (arrays s1 arr ! j = original \<and> arrays s2 arr ! j = replacement)"
    and l: "length (arrays s2 arr) = length (arrays s1 arr)"
    by (simp_all add: splices_def)
  from assms(2) j l have b: "arrays s3 arr ! j = arrays s2 arr ! j \<or>
      (arrays s2 arr ! j = original \<and> arrays s3 arr ! j = replacement)"
    by (simp add: splices_def)
  from a b show "arrays s3 arr ! j = arrays s1 arr ! j \<or>
      (arrays s1 arr ! j = original \<and> arrays s3 arr ! j = replacement)"
    by auto
qed

lemma splices_writeSlot:
  assumes "i < length (arrays s arr)" and "arrays s arr ! i = original"
  shows "splices original replacement s (writeSlot s arr i replacement)"
  using assms by (auto simp: splices_def writeSlot_def nth_list_update)

lemma splices_slot:
  assumes "splices original replacement s s'" and "c' \<in> set (arrays s' arr)"
  shows "c' \<in> set (arrays s arr) \<or> (original \<in> set (arrays s arr) \<and> c' = replacement)"
proof -
  from assms(2) obtain j where j: "j < length (arrays s' arr)" "arrays s' arr ! j = c'"
    by (auto simp: in_set_conv_nth)
  with assms(1) have j0: "j < length (arrays s arr)" by (simp add: splices_def)
  with assms(1) j have "c' = arrays s arr ! j \<or> (arrays s arr ! j = original \<and> c' = replacement)"
    by (auto simp: splices_def)
  with j0 show ?thesis by (auto simp: in_set_conv_nth)
qed

lemma splices_ranked:
  assumes "ranked rk original replacement s" and "splices original replacement s s'"
  shows "ranked rk original replacement s'"
  unfolding ranked_def
proof (intro allI impI ballI)
  fix a arr m c
  assume obj: "objects s' a = CombinationObject arr m" and c: "c \<in> set (arrays s' arr)"
  from obj assms(2) have obj0: "objects s a = CombinationObject arr m" by (simp add: splices_def)
  from splices_slot [OF assms(2) c] assms(1) obj0
  show "rk c < rk a \<and> (c = original \<longrightarrow> rk replacement < rk a)"
    by (auto simp: ranked_def)
qed

lemma spliced_splices:
  assumes "splices original replacement s s'"
  shows "spliced original replacement (arrays s' arr) = spliced original replacement (arrays s arr)"
proof (rule nth_equalityI)
  show "length (spliced original replacement (arrays s' arr)) =
      length (spliced original replacement (arrays s arr))"
    using assms by (simp add: spliced_def splices_def)
next
  fix j
  assume "j < length (spliced original replacement (arrays s' arr))"
  with assms have j: "j < length (arrays s arr)" "j < length (arrays s' arr)"
    by (simp_all add: spliced_def splices_def)
  with assms have "arrays s' arr ! j = arrays s arr ! j \<or>
      (arrays s arr ! j = original \<and> arrays s' arr ! j = replacement)"
    by (simp add: splices_def)
  with j show "spliced original replacement (arrays s' arr) ! j =
      spliced original replacement (arrays s arr) ! j"
    by (auto simp: spliced_def)
qed

lemma spliced_stays:
  assumes "arrays s arr = spliced original replacement cs" and "splices original replacement s s'"
  shows "arrays s' arr = spliced original replacement cs"
proof (rule nth_equalityI)
  show "length (arrays s' arr) = length (spliced original replacement cs)"
    using assms by (simp add: splices_def)
next
  fix j
  assume "j < length (arrays s' arr)"
  with assms have j: "j < length (arrays s arr)" by (simp add: splices_def)
  with assms(2) have "arrays s' arr ! j = arrays s arr ! j \<or>
      (arrays s arr ! j = original \<and> arrays s' arr ! j = replacement)"
    by (simp add: splices_def)
  with j assms(1) show "arrays s' arr ! j = spliced original replacement cs ! j"
    by (auto simp: spliced_def split: if_splits)
qed

lemma inTree_splices:
  assumes "splices original replacement s s'" and "a \<in> inTree s original this"
  shows "a \<in> inTree s' original this"
  using assms(2)
proof (induction rule: inTree.induct)
  case root
  then show ?case by (rule inTree.root)
next
  case (child a arr m c)
  from child.hyps(2) assms(1) have obj: "objects s' a = CombinationObject arr m"
    by (simp add: splices_def)
  from child.hyps(3) obtain j where j: "j < length (arrays s arr)" "arrays s arr ! j = c"
    by (auto simp: in_set_conv_nth)
  with assms(1) child.hyps(4) have "arrays s' arr ! j = c" "j < length (arrays s' arr)"
    by (auto simp: splices_def)
  then have cs: "c \<in> set (arrays s' arr)" by (auto simp: in_set_conv_nth)
  from child.IH obj cs child.hyps(4) show ?case by (rule inTree.child)
qed

lemma inTree_front:
  assumes "a \<in> inTree s original this"
  shows "a = this \<or> (\<exists>arr m c. objects s this = CombinationObject arr m \<and> c \<in> set (arrays s arr)
      \<and> c \<noteq> original \<and> a \<in> inTree s original c)"
  using assms
proof (induction rule: inTree.induct)
  case root
  then show ?case by simp
next
  case (child a arr m c)
  from child.IH show ?case
  proof
    assume "a = this"
    with child.hyps have "objects s this = CombinationObject arr m" "c \<in> set (arrays s arr)"
      "c \<noteq> original" "c \<in> inTree s original c"
      by (auto intro: inTree.root)
    then show ?thesis by blast
  next
    assume "\<exists>arr' m' c'. objects s this = CombinationObject arr' m' \<and> c' \<in> set (arrays s arr')
      \<and> c' \<noteq> original \<and> a \<in> inTree s original c'"
    then obtain arr' m' c' where f: "objects s this = CombinationObject arr' m'"
      "c' \<in> set (arrays s arr')" "c' \<noteq> original" "a \<in> inTree s original c'" by blast
    from f(4) child.hyps(2,3,4) have "c \<in> inTree s original c'" by (rule inTree.child)
    with f show ?thesis by blast
  qed
qed

lemma fuel_mono:
  "replaceQuery fuel s this original replacement = Some x \<Longrightarrow>
     replaceQuery (fuel + k) s this original replacement = Some x"
  "replaceLoop fuel s subList i original replacement = Some y \<Longrightarrow>
     replaceLoop (fuel + k) s subList i original replacement = Some y"
proof (induction fuel s this original replacement and fuel s subList i original replacement
    arbitrary: x and y rule: replaceQuery_replaceLoop.induct)
  case (1 s this original replacement)
  then show ?case by simp
next
  case (2 fuel s this original replacement)
  then show ?case by (auto split: if_splits object.splits option.splits)
next
  case (3 s subList i original replacement)
  then show ?case by simp
next
  case (4 fuel s subList i original replacement)
  then show ?case by (auto split: if_splits option.splits prod.splits)
qed

lemma settled_later:
  assumes "settled original replacement s1 s2 this"
    and "splices original replacement s0 s1" and "splices original replacement s2 s3"
  shows "settled original replacement s0 s3 this"
  unfolding settled_def
proof (intro ballI allI impI)
  fix a arr m
  assume a: "a \<in> inTree s0 original this" and obj: "objects s0 a = CombinationObject arr m"
  from assms(2) a have "a \<in> inTree s1 original this" by (rule inTree_splices)
  moreover from obj assms(2) have "objects s1 a = CombinationObject arr m"
    by (simp add: splices_def)
  ultimately have "arrays s2 arr = spliced original replacement (arrays s1 arr)"
    using assms(1) by (simp add: settled_def)
  then have "arrays s2 arr = spliced original replacement (arrays s0 arr)"
    using spliced_splices [OF assms(2)] by simp
  then show "arrays s3 arr = spliced original replacement (arrays s0 arr)"
    using assms(3) by (rule spliced_stays)
qed


lemma settled_original: "settled original replacement s s' original"
proof -
  have "inTree s original original = {}"
    by (auto elim: inTree.induct)
  then show ?thesis by (simp add: settled_def)
qed

lemma settled_leaf:
  assumes "objects s this = ConditionObject field argName ownArgMap"
  shows "settled original replacement s s this"
  unfolding settled_def
proof (intro ballI allI impI)
  fix a arr m
  assume "a \<in> inTree s original this" "objects s a = CombinationObject arr m"
  with inTree_front [of a s original this] assms
  show "arrays s arr = spliced original replacement (arrays s arr)" by auto
qed

lemma settled_receiver:
  assumes obj: "objects s this = CombinationObject subList ownArgMap"
    and st: "splices original replacement s s'"
    and slots: "\<And>j. j < length (arrays s subList) \<Longrightarrow>
            arrays s' subList ! j = spliced original replacement (arrays s subList) ! j
            \<and> (arrays s subList ! j \<noteq> original \<longrightarrow>
                 settled original replacement s s' (arrays s subList ! j))"
  shows "settled original replacement s s' this"
proof -
  have own: "arrays s' subList = spliced original replacement (arrays s subList)"
  proof (rule nth_equalityI)
    show "length (arrays s' subList) = length (spliced original replacement (arrays s subList))"
      using st by (simp add: splices_def spliced_def)
  next
    fix j assume "j < length (arrays s' subList)"
    with st have "j < length (arrays s subList)" by (simp add: splices_def)
    with slots
    show "arrays s' subList ! j = spliced original replacement (arrays s subList) ! j"
      by simp
  qed
  show ?thesis
    unfolding settled_def
  proof (intro ballI allI impI)
    fix a arr m
    assume a: "a \<in> inTree s original this" and oa: "objects s a = CombinationObject arr m"
    from inTree_front [OF a]
    show "arrays s' arr = spliced original replacement (arrays s arr)"
    proof
      assume "a = this"
      with oa obj own show ?thesis by simp
    next
      assume "\<exists>arr m c. objects s this = CombinationObject arr m \<and> c \<in> set (arrays s arr)
          \<and> c \<noteq> original \<and> a \<in> inTree s original c"
      with obj obtain c where c: "c \<in> set (arrays s subList)"
        "c \<noteq> original" "a \<in> inTree s original c" by auto
      from c(1) obtain j where j: "j < length (arrays s subList)" "arrays s subList ! j = c"
        by (auto simp: in_set_conv_nth)
      with slots c(2) have "settled original replacement s s' c" by blast
      with c(3) oa show ?thesis by (simp add: settled_def)
    qed
  qed
qed

lemma fromSlot_end:
  "\<not> i < length (arrays s subList) \<Longrightarrow> fromSlot original replacement s s subList i"
  by (simp add: fromSlot_def splices_refl)

lemma fromSlot_round:
  assumes i: "i < length (arrays s subList)"
    and st1: "splices original replacement s s1"
    and slot: "arrays s1 subList ! i = spliced original replacement (arrays s subList) ! i"
    and se1: "arrays s subList ! i \<noteq> original \<longrightarrow>
        settled original replacement s s1 (arrays s subList ! i)"
    and rest: "fromSlot original replacement s1 s2 subList (Suc i)"
  shows "fromSlot original replacement s s2 subList i"
proof -
  let ?c = "arrays s subList ! i"
  from rest have st2: "splices original replacement s1 s2"
    and slots2: "\<And>j. Suc i \<le> j \<and> j < length (arrays s1 subList) \<Longrightarrow>
            arrays s2 subList ! j = spliced original replacement (arrays s1 subList) ! j
            \<and> (arrays s1 subList ! j \<noteq> original \<longrightarrow>
                 settled original replacement s1 s2 (arrays s1 subList ! j))"
    by (simp_all add: fromSlot_def)
  from st1 have len: "length (arrays s1 subList) = length (arrays s subList)"
    by (simp add: splices_def)
  from st1 st2 have st: "splices original replacement s s2" by (rule splices_trans)
  have "arrays s2 subList ! j = spliced original replacement (arrays s subList) ! j
      \<and> (arrays s subList ! j \<noteq> original \<longrightarrow>
           settled original replacement s s2 (arrays s subList ! j))"
    if j: "i \<le> j \<and> j < length (arrays s subList)" for j
  proof (cases "j = i")
    case True
    from st2 i len have "arrays s2 subList ! i = arrays s1 subList ! i \<or>
        (arrays s1 subList ! i = original \<and> arrays s2 subList ! i = replacement)"
      by (simp add: splices_def)
    with slot i
    have "arrays s2 subList ! i = spliced original replacement (arrays s subList) ! i"
      by (auto simp: spliced_def split: if_splits)
    moreover have "settled original replacement s s2 ?c" if "?c \<noteq> original"
      using se1 that settled_later [OF _ splices_refl st2] by blast
    ultimately show ?thesis using True by blast
  next
    case False
    with j len have j1: "Suc i \<le> j \<and> j < length (arrays s1 subList)" by simp
    from slots2 [OF j1] spliced_splices [OF st1, of subList]
    have a: "arrays s2 subList ! j = spliced original replacement (arrays s subList) ! j"
      by simp
    have "settled original replacement s s2 (arrays s subList ! j)"
      if ne: "arrays s subList ! j \<noteq> original"
    proof -
      from st1 j ne have same: "arrays s1 subList ! j = arrays s subList ! j"
        by (auto simp: splices_def)
      with slots2 [OF j1] ne have "settled original replacement s1 s2 (arrays s subList ! j)"
        by simp
      then show ?thesis using st1 splices_refl by (rule settled_later)
    qed
    with a show ?thesis by blast
  qed
  with st show ?thesis by (simp add: fromSlot_def)
qed

lemma fromSlot_splice:
  assumes i: "i < length (arrays s subList)" and c: "arrays s subList ! i = original"
    and rest: "fromSlot original replacement (writeSlot s subList i replacement) s2 subList (Suc i)"
  shows "fromSlot original replacement s s2 subList i"
proof (rule fromSlot_round [OF i _ _ _ rest])
  from i c show "splices original replacement s (writeSlot s subList i replacement)"
    by (rule splices_writeSlot)
  from i c show "arrays (writeSlot s subList i replacement) subList ! i =
      spliced original replacement (arrays s subList) ! i"
    by (simp add: writeSlot_def spliced_def)
  from c show "arrays s subList ! i \<noteq> original \<longrightarrow>
      settled original replacement s (writeSlot s subList i replacement) (arrays s subList ! i)"
    by simp
qed

lemma fromSlot_descend:
  assumes i: "i < length (arrays s subList)" and c: "arrays s subList ! i \<noteq> original"
    and st: "splices original replacement s s1"
    and se: "settled original replacement s s1 (arrays s subList ! i)"
    and rest: "fromSlot original replacement s1 s2 subList (Suc i)"
  shows "fromSlot original replacement s s2 subList i"
proof (rule fromSlot_round [OF i st _ _ rest])
  from st i c have "arrays s1 subList ! i = arrays s subList ! i" by (auto simp: splices_def)
  with i c show "arrays s1 subList ! i = spliced original replacement (arrays s subList) ! i"
    by (simp add: spliced_def)
  from se show "arrays s subList ! i \<noteq> original \<longrightarrow>
      settled original replacement s s1 (arrays s subList ! i)" by simp
qed

lemma replaceQuery_answer:
  "replaceQuery fuel s this original replacement = Some result \<Longrightarrow>
     answer original replacement s this result"
  "replaceLoop fuel s subList i original replacement = Some s' \<Longrightarrow>
     fromSlot original replacement s s' subList i"
proof (induction fuel s this original replacement and fuel s subList i original replacement
    arbitrary: result and s' rule: replaceQuery_replaceLoop.induct)
  case (1 s this original replacement)
  then show ?case by simp
next
  case (2 fuel s this original replacement)
  show ?case
  proof (cases "this = original")
    case True
    with "2.prems" show ?thesis
      by (auto simp: answer_def splices_refl settled_original)
  next
    case False
    show ?thesis
    proof (cases "objects s this")
      case (ConditionObject field argName ownArgMap)
      with False "2.prems" show ?thesis
        by (auto simp: answer_def splices_refl settled_leaf)
    next
      case (CombinationObject subList ownArgMap)
      with False "2.prems" obtain s' where
        run: "replaceLoop fuel s subList 0 original replacement = Some s'"
        and res: "result = (s', this)"
        by (auto split: option.splits)
      from "2.IH" [OF False CombinationObject run]
      have fs: "fromSlot original replacement s s' subList 0" .
      then have st: "splices original replacement s s'" by (simp add: fromSlot_def)
      from fs have "settled original replacement s s' this"
        by (rule_tac settled_receiver [OF CombinationObject st]) (simp add: fromSlot_def)
      with st res False show ?thesis by (simp add: answer_def)
    qed
  qed
next
  case (3 s subList i original replacement)
  then show ?case by simp
next
  case (4 fuel s subList i original replacement)
  show ?case
  proof (cases "i < length (arrays s subList)")
    case False
    with "4.prems" show ?thesis by (auto simp: fromSlot_end)
  next
    case i: True
    show ?thesis
    proof (cases "arrays s subList ! i = original")
      case True
      with i "4.prems"
      have "replaceLoop fuel (writeSlot s subList i replacement) subList (Suc i)
          original replacement = Some s'" by simp
      from i True "4.IH"(1) [OF i True this] show ?thesis by (rule fromSlot_splice)
    next
      case False
      with i "4.prems" obtain s1 returned where
        call: "replaceQuery fuel s (arrays s subList ! i) original replacement = Some (s1, returned)"
        and rest: "replaceLoop fuel s1 subList (Suc i) original replacement = Some s'"
        by (auto split: option.splits prod.splits)
      from "4.IH"(2) [OF i False call]
      have "answer original replacement s (arrays s subList ! i) (s1, returned)" .
      then have st: "splices original replacement s s1"
        and se: "settled original replacement s s1 (arrays s subList ! i)"
        by (simp_all add: answer_def)
      from "4.IH"(3) [OF i False call refl rest]
      have "fromSlot original replacement s1 s' subList (Suc i)" .
      with i False st se show ?thesis by (rule fromSlot_descend)
    qed
  qed
qed

lemma replaceLoop_returns:
  assumes IH: "\<And>c. rk c < K \<Longrightarrow> returns rk original replacement c"
  shows "ranked rk original replacement s \<Longrightarrow>
     \<forall>c \<in> set (arrays s subList). rk c < K \<and> (c = original \<longrightarrow> rk replacement < K) \<Longrightarrow>
     \<exists>fuel s'. replaceLoop fuel s subList i original replacement = Some s'"
proof (induction "length (arrays s subList) - i" arbitrary: s i)
  case 0
  then have "replaceLoop (Suc 0) s subList i original replacement = Some s" by simp
  then show ?case by blast
next
  case (Suc d)
  then have i: "i < length (arrays s subList)" by simp
  let ?c = "arrays s subList ! i"
  have "\<exists>n1 s1. (\<forall>k. replaceLoop (Suc (n1 + k)) s subList i original replacement =
                      replaceLoop (n1 + k) s1 subList (Suc i) original replacement)
      \<and> splices original replacement s s1"
  proof (cases "?c = original")
    case True
    let ?s1 = "writeSlot s subList i replacement"
    from i True have "\<forall>k. replaceLoop (Suc (0 + k)) s subList i original replacement =
        replaceLoop (0 + k) ?s1 subList (Suc i) original replacement" by simp
    moreover from i True have "splices original replacement s ?s1" by (rule splices_writeSlot)
    ultimately show ?thesis by blast
  next
    case False
    from i Suc.prems(2) have "rk ?c < K" by simp
    from IH [OF this] Suc.prems(1) obtain n1 s1 returned where
      call: "replaceQuery n1 s ?c original replacement = Some (s1, returned)"
      by (auto simp: returns_def)
    from replaceQuery_answer(1) [OF call] have st: "splices original replacement s s1"
      by (simp add: answer_def)
    from call have "replaceQuery (n1 + k) s ?c original replacement = Some (s1, returned)" for k
      by (rule fuel_mono(1))
    with i False have "\<forall>k. replaceLoop (Suc (n1 + k)) s subList i original replacement =
        replaceLoop (n1 + k) s1 subList (Suc i) original replacement" by simp
    with st show ?thesis by blast
  qed
  then obtain n1 s1 where
    unfold: "\<And>k. replaceLoop (Suc (n1 + k)) s subList i original replacement =
                      replaceLoop (n1 + k) s1 subList (Suc i) original replacement"
    and st1: "splices original replacement s s1"
    by blast
  from st1 have len: "length (arrays s1 subList) = length (arrays s subList)"
    by (simp add: splices_def)
  from Suc.prems(1) st1 have rk1: "ranked rk original replacement s1" by (rule splices_ranked)
  have ranks1: "\<forall>c \<in> set (arrays s1 subList). rk c < K \<and> (c = original \<longrightarrow> rk replacement < K)"
  proof
    fix c assume "c \<in> set (arrays s1 subList)"
    from splices_slot [OF st1 this] Suc.prems(2)
    show "rk c < K \<and> (c = original \<longrightarrow> rk replacement < K)" by auto
  qed
  from Suc.hyps(2) len have "d = length (arrays s1 subList) - Suc i" by simp
  from Suc.hyps(1) [OF this rk1 ranks1] obtain n2 s2 where
    rest: "replaceLoop n2 s1 subList (Suc i) original replacement = Some s2"
    by blast
  from rest have "replaceLoop (n2 + n1) s1 subList (Suc i) original replacement = Some s2"
    by (rule fuel_mono(2))
  with unfold [of n2]
  have "replaceLoop (Suc (n1 + n2)) s subList i original replacement = Some s2"
    by (simp add: add.commute)
  then show ?case by blast
qed

lemma replaceQuery_returns: "returns rk original replacement this"
proof (induction "rk this" arbitrary: this rule: less_induct)
  case less
  show ?case
    unfolding returns_def
  proof (intro allI impI)
    fix s
    assume rk: "ranked rk original replacement s"
    show "\<exists>fuel result. replaceQuery fuel s this original replacement = Some result"
    proof (cases "objects s this")
      case (ConditionObject field argName ownArgMap)
      then have "replaceQuery (Suc 0) s this original replacement =
          Some (s, if this = original then replacement else this)" by simp
      then show ?thesis by blast
    next
      case (CombinationObject subList ownArgMap)
      with rk have ranks: "\<forall>c \<in> set (arrays s subList).
          rk c < rk this \<and> (c = original \<longrightarrow> rk replacement < rk this)"
        by (simp add: ranked_def)
      from replaceLoop_returns [OF less.hyps rk ranks, where i = 0] obtain fuel s' where
        "replaceLoop fuel s subList 0 original replacement = Some s'" by blast
      with CombinationObject
      have "replaceQuery (Suc fuel) s this original replacement =
          Some (if this = original then (s, replacement) else (s', this))" by simp
      then show ?thesis by blast
    qed
  qed
qed

lemma below_refl: "below q q"
  by (simp add: below_def)

lemma below_slot: "below (q @ [j]) p \<Longrightarrow> below q p"
  unfolding below_def
proof -
  assume a: "take (length (q @ [j])) p = q @ [j]"
  have "take (length q) p = take (length q) (take (length (q @ [j])) p)"
    by (simp add: min_def)
  also from a have "\<dots> = take (length q) (q @ [j])" by simp
  finally show "take (length q) p = q" by simp
qed

lemma below_slots: "below (q @ [i]) p \<Longrightarrow> below (q @ [j]) p \<Longrightarrow> i = j"
  by (auto simp: below_def)

lemma not_below_self: "\<not> below (q @ [j]) q"
  by (simp add: below_def)

lemma replaceLoop_walks:
  assumes un: "unshared rk pos original s"
    and IH: "\<And>c. rk c < K \<Longrightarrow> walks pos s original replacement c"
    and ranks: "\<forall>j < length (arrays s subList). rk (arrays s subList ! j) < K"
    and sub: "\<forall>j < length (arrays s subList). arrays s subList ! j \<noteq> original \<longrightarrow>
        (\<forall>arr' m'. objects s (arrays s subList ! j) = CombinationObject arr' m' \<longrightarrow>
           pos arr' = pos subList @ [j])"
  shows "objects sc = objects s \<Longrightarrow>
     length (arrays sc subList) = length (arrays s subList) \<Longrightarrow>
     \<forall>j. i \<le> j \<and> j < length (arrays s subList) \<longrightarrow> arrays sc subList ! j = arrays s subList ! j \<Longrightarrow>
     \<forall>arr' j. i \<le> j \<and> below (pos subList @ [j]) (pos arr') \<longrightarrow> arrays sc arr' = arrays s arr' \<Longrightarrow>
     \<exists>fuel s'. replaceLoop fuel sc subList i original replacement = Some s'
       \<and> objects s' = objects s
       \<and> (\<forall>arr'. \<not> below (pos subList) (pos arr') \<longrightarrow> arrays s' arr' = arrays sc arr')"
proof (induction "length (arrays s subList) - i" arbitrary: sc i)
  case 0
  then have "replaceLoop (Suc 0) sc subList i original replacement = Some sc" by simp
  with 0 show ?case by blast
next
  case (Suc d)
  then have i: "i < length (arrays s subList)" by simp
  with Suc.prems(2) have ic: "i < length (arrays sc subList)" by simp
  let ?c = "arrays sc subList ! i"
  from i Suc.prems(3) have c: "?c = arrays s subList ! i" by simp
  have "\<exists>n1 s1. (\<forall>k. replaceLoop (Suc (n1 + k)) sc subList i original replacement =
                      replaceLoop (n1 + k) s1 subList (Suc i) original replacement)
      \<and> objects s1 = objects s
      \<and> length (arrays s1 subList) = length (arrays s subList)
      \<and> (\<forall>j. Suc i \<le> j \<and> j < length (arrays s subList) \<longrightarrow>
            arrays s1 subList ! j = arrays s subList ! j)
      \<and> (\<forall>arr' j. Suc i \<le> j \<and> below (pos subList @ [j]) (pos arr') \<longrightarrow>
            arrays s1 arr' = arrays s arr')
      \<and> (\<forall>arr'. \<not> below (pos subList) (pos arr') \<longrightarrow> arrays s1 arr' = arrays sc arr')"
  proof (cases "?c = original")
    case True
    let ?s1 = "writeSlot sc subList i replacement"
    from ic True have "\<forall>k. replaceLoop (Suc (0 + k)) sc subList i original replacement =
        replaceLoop (0 + k) ?s1 subList (Suc i) original replacement" by simp
    moreover from Suc.prems(1) have "objects ?s1 = objects s" by (simp add: writeSlot_def)
    moreover from Suc.prems(2) have "length (arrays ?s1 subList) = length (arrays s subList)"
      by (simp add: writeSlot_def)
    moreover from Suc.prems(3) have "\<forall>j. Suc i \<le> j \<and> j < length (arrays s subList) \<longrightarrow>
            arrays ?s1 subList ! j = arrays s subList ! j"
      by (simp add: writeSlot_def)
    moreover have "\<forall>arr' j. Suc i \<le> j \<and> below (pos subList @ [j]) (pos arr') \<longrightarrow>
            arrays ?s1 arr' = arrays s arr'"
    proof (intro allI impI)
      fix arr' j
      assume a: "Suc i \<le> j \<and> below (pos subList @ [j]) (pos arr')"
      then have "arr' \<noteq> subList" using not_below_self by blast
      moreover from a Suc.prems(4) have "arrays sc arr' = arrays s arr'"
        by (metis Suc_leD)
      ultimately show "arrays ?s1 arr' = arrays s arr'" by (simp add: writeSlot_def)
    qed
    moreover have "\<forall>arr'. \<not> below (pos subList) (pos arr') \<longrightarrow> arrays ?s1 arr' = arrays sc arr'"
      using below_refl by (auto simp: writeSlot_def)
    ultimately show ?thesis by blast
  next
    case False
    from i ranks c have "rk ?c < K" by simp
    from IH [OF this] have w: "walks pos s original replacement ?c" .
    have pre: "\<forall>arr m. objects s ?c = CombinationObject arr m \<longrightarrow>
        (\<forall>arr'. below (pos arr) (pos arr') \<longrightarrow> arrays sc arr' = arrays s arr')"
    proof (intro allI impI)
      fix arr m arr'
      assume o: "objects s ?c = CombinationObject arr m" and b: "below (pos arr) (pos arr')"
      from sub i False c o have "pos arr = pos subList @ [i]" by auto
      with b Suc.prems(4) show "arrays sc arr' = arrays s arr'" by auto
    qed
    from w Suc.prems(1) pre obtain n1 s1 returned where
      call: "replaceQuery n1 sc ?c original replacement = Some (s1, returned)"
      and o1: "objects s1 = objects s"
      and frame: "\<forall>arr m. objects s ?c = CombinationObject arr m \<longrightarrow>
          (\<forall>arr'. \<not> below (pos arr) (pos arr') \<longrightarrow> arrays s1 arr' = arrays sc arr')"
      and leaf: "\<forall>f an am. objects s ?c = ConditionObject f an am \<longrightarrow> s1 = sc"
      unfolding walks_def by blast
    have keep: "arrays s1 arr' = arrays sc arr'" if "\<not> below (pos subList @ [i]) (pos arr')" for arr'
    proof (cases "objects s ?c")
      case (ConditionObject f an am)
      with leaf show ?thesis by simp
    next
      case (CombinationObject arr m)
      with sub i False c have "pos arr = pos subList @ [i]" by auto
      with frame CombinationObject that show ?thesis by auto
    qed
    from call have "replaceQuery (n1 + k) sc ?c original replacement = Some (s1, returned)" for k
      by (rule fuel_mono(1))
    with ic False have "\<forall>k. replaceLoop (Suc (n1 + k)) sc subList i original replacement =
        replaceLoop (n1 + k) s1 subList (Suc i) original replacement" by simp
    moreover have same: "arrays s1 subList = arrays sc subList"
      using keep [of subList] not_below_self by blast
    with Suc.prems(2) have "length (arrays s1 subList) = length (arrays s subList)" by simp
    moreover from same Suc.prems(3) have "\<forall>j. Suc i \<le> j \<and> j < length (arrays s subList) \<longrightarrow>
            arrays s1 subList ! j = arrays s subList ! j" by simp
    moreover have "\<forall>arr' j. Suc i \<le> j \<and> below (pos subList @ [j]) (pos arr') \<longrightarrow>
            arrays s1 arr' = arrays s arr'"
    proof (intro allI impI)
      fix arr' j
      assume a: "Suc i \<le> j \<and> below (pos subList @ [j]) (pos arr')"
      then have "\<not> below (pos subList @ [i]) (pos arr')"
        using below_slots [of "pos subList" i "pos arr'" j] by auto
      then have "arrays s1 arr' = arrays sc arr'" by (rule keep)
      moreover from a Suc.prems(4) have "arrays sc arr' = arrays s arr'"
        by (metis Suc_leD)
      ultimately show "arrays s1 arr' = arrays s arr'" by simp
    qed
    moreover have "\<forall>arr'. \<not> below (pos subList) (pos arr') \<longrightarrow> arrays s1 arr' = arrays sc arr'"
      using keep below_slot by blast
    ultimately show ?thesis using o1 by blast
  qed
  then obtain n1 s1 where
    unfold: "\<And>k. replaceLoop (Suc (n1 + k)) sc subList i original replacement =
                      replaceLoop (n1 + k) s1 subList (Suc i) original replacement"
    and o1: "objects s1 = objects s"
    and l1: "length (arrays s1 subList) = length (arrays s subList)"
    and slots1: "\<forall>j. Suc i \<le> j \<and> j < length (arrays s subList) \<longrightarrow>
            arrays s1 subList ! j = arrays s subList ! j"
    and subs1: "\<forall>arr' j. Suc i \<le> j \<and> below (pos subList @ [j]) (pos arr') \<longrightarrow>
            arrays s1 arr' = arrays s arr'"
    and frame1: "\<forall>arr'. \<not> below (pos subList) (pos arr') \<longrightarrow> arrays s1 arr' = arrays sc arr'"
    by blast
  from Suc.hyps(2) have "d = length (arrays s subList) - Suc i" by simp
  from Suc.hyps(1) [OF this o1 l1 slots1 subs1] obtain n2 s2 where
    rest: "replaceLoop n2 s1 subList (Suc i) original replacement = Some s2"
    and o2: "objects s2 = objects s"
    and frame2: "\<forall>arr'. \<not> below (pos subList) (pos arr') \<longrightarrow> arrays s2 arr' = arrays s1 arr'"
    by blast
  from rest have "replaceLoop (n2 + n1) s1 subList (Suc i) original replacement = Some s2"
    by (rule fuel_mono(2))
  with unfold [of n2]
  have "replaceLoop (Suc (n1 + n2)) sc subList i original replacement = Some s2"
    by (simp add: add.commute)
  with o2 frame1 frame2 show ?case by (metis (no_types, lifting))
qed

lemma replaceQuery_walks:
  assumes un: "unshared rk pos original s"
  shows "walks pos s original replacement this"
proof (induction "rk this" arbitrary: this rule: less_induct)
  case less
  show ?case
    unfolding walks_def
  proof (intro allI impI)
    fix sc :: store
    assume pre: "objects sc = objects s
        \<and> (\<forall>arr m. objects s this = CombinationObject arr m \<longrightarrow>
              (\<forall>arr'. below (pos arr) (pos arr') \<longrightarrow> arrays sc arr' = arrays s arr'))"
    then have osc: "objects sc = objects s" by simp
    show "\<exists>fuel s1 returned. replaceQuery fuel sc this original replacement = Some (s1, returned)
               \<and> objects s1 = objects s
               \<and> (\<forall>arr m. objects s this = CombinationObject arr m \<longrightarrow>
                     (\<forall>arr'. \<not> below (pos arr) (pos arr') \<longrightarrow> arrays s1 arr' = arrays sc arr'))
               \<and> (\<forall>f an am. objects s this = ConditionObject f an am \<longrightarrow> s1 = sc)
               \<and> (this = original \<longrightarrow> s1 = sc)"
    proof (cases "this = original \<or> (\<exists>f an am. objects s this = ConditionObject f an am)")
      case True
      with osc have "replaceQuery (Suc 0) sc this original replacement =
          Some (sc, if this = original then replacement else this)" by auto
      with osc show ?thesis by blast
    next
      case False
      then obtain subList m where obj: "objects s this = CombinationObject subList m"
        by (cases "objects s this") auto
      from un obj have ranks: "\<forall>j < length (arrays s subList). rk (arrays s subList ! j) < rk this"
        and sub: "\<forall>j < length (arrays s subList). arrays s subList ! j \<noteq> original \<longrightarrow>
          (\<forall>arr' m'. objects s (arrays s subList ! j) = CombinationObject arr' m' \<longrightarrow>
             pos arr' = pos subList @ [j])"
        unfolding unshared_def by blast+
      from pre obj have agree: "\<forall>arr'. below (pos subList) (pos arr') \<longrightarrow> arrays sc arr' = arrays s arr'"
        by simp
      with below_refl have own: "arrays sc subList = arrays s subList" by blast
      have subs: "\<forall>arr' j. 0 \<le> j \<and> below (pos subList @ [j]) (pos arr') \<longrightarrow>
          arrays sc arr' = arrays s arr'"
        using agree below_slot by blast
      from own have "length (arrays sc subList) = length (arrays s subList)"
        and "\<forall>j. 0 \<le> j \<and> j < length (arrays s subList) \<longrightarrow>
          arrays sc subList ! j = arrays s subList ! j" by simp_all
      from replaceLoop_walks [OF un less.hyps ranks sub osc this subs] obtain fuel s' where
        run: "replaceLoop fuel sc subList 0 original replacement = Some s'"
        and o': "objects s' = objects s"
        and frame: "\<forall>arr'. \<not> below (pos subList) (pos arr') \<longrightarrow> arrays s' arr' = arrays sc arr'"
        by blast
      from run False obj osc
      have call: "replaceQuery (Suc fuel) sc this original replacement = Some (s', this)"
        by simp
      from obj frame have frame': "\<forall>arr m. objects s this = CombinationObject arr m \<longrightarrow>
          (\<forall>arr'. \<not> below (pos arr) (pos arr') \<longrightarrow> arrays s' arr' = arrays sc arr')"
        by simp
      from obj have leaf: "\<forall>f an am. objects s this = ConditionObject f an am \<longrightarrow> s' = sc"
        by simp
      from False have orig: "this = original \<longrightarrow> s' = sc" by simp
      from call o' frame' leaf orig show ?thesis by blast
    qed
  qed
qed

lemma unshared_returns:
  assumes "unshared rk pos original s"
  shows "\<exists>fuel result. replaceQuery fuel s this original replacement = Some result"
proof -
  from replaceQuery_walks [OF assms, of replacement this]
  have "\<exists>fuel s1 returned. replaceQuery fuel s this original replacement = Some (s1, returned)"
    unfolding walks_def by blast
  then show ?thesis by blast
qed

text \<open>
  Claim C3.  Whenever \<open>replaceQuery(original, replacement)\<close> returns, on any store
  and for any two objects: on the receiver that is \<open>original\<close> it returns
  \<open>replacement\<close> and writes nothing; on any other receiver it returns the receiver,
  and in the store it leaves every combination of the receiver's tree has, in its
  children array, \<open>replacement\<close> in each slot that held \<open>original\<close> and the same
  child in each other slot, so that every occurrence of \<open>original\<close> in the tree is
  replaced.  Nothing else is written: no object changes, and an array slot changes
  only from \<open>original\<close> to \<open>replacement\<close>.  And the call does return, for every
  amount of fuel from some amount on: when no combination is shared, whatever
  \<open>replacement\<close> is; and with shared subtrees, when the store is free of cycles
  before and after the replacement.
\<close>

theorem replaceQuery_replaces_all:
  "(\<forall>fuel s' returned.
       replaceQuery fuel s this original replacement = Some (s', returned) \<longrightarrow>
         returned = (if this = original then replacement else this)
         \<and> (this = original \<longrightarrow> s' = s)
         \<and> objects s' = objects s
         \<and> (\<forall>a \<in> inTree s original this. \<forall>arr m. objects s a = CombinationObject arr m \<longrightarrow>
               arrays s' arr = spliced original replacement (arrays s arr))
         \<and> (\<forall>arr. length (arrays s' arr) = length (arrays s arr) \<and>
               (\<forall>j < length (arrays s arr).
                  arrays s' arr ! j = arrays s arr ! j \<or>
                  (arrays s arr ! j = original \<and> arrays s' arr ! j = replacement))))
   \<and> (unshared rk pos original s \<longrightarrow>
        (\<exists>fuel s' returned. \<forall>more.
           replaceQuery (fuel + more) s this original replacement = Some (s', returned)))
   \<and> (ranked rk original replacement s \<longrightarrow>
        (\<exists>fuel s' returned. \<forall>more.
           replaceQuery (fuel + more) s this original replacement = Some (s', returned)))"
proof -
  have partial: "returned = (if this = original then replacement else this)
         \<and> (this = original \<longrightarrow> s' = s)
         \<and> objects s' = objects s
         \<and> (\<forall>a \<in> inTree s original this. \<forall>arr m. objects s a = CombinationObject arr m \<longrightarrow>
               arrays s' arr = spliced original replacement (arrays s arr))
         \<and> (\<forall>arr. length (arrays s' arr) = length (arrays s arr) \<and>
               (\<forall>j < length (arrays s arr).
                  arrays s' arr ! j = arrays s arr ! j \<or>
                  (arrays s arr ! j = original \<and> arrays s' arr ! j = replacement)))"
    if call: "replaceQuery fuel s this original replacement = Some (s', returned)"
    for fuel s' returned
  proof -
    from replaceQuery_answer(1) [OF call]
    have a: "returned = (if this = original then replacement else this)"
      and b: "this = original \<longrightarrow> s' = s"
      and c: "splices original replacement s s'"
      and d: "settled original replacement s s' this"
      by (simp_all add: answer_def)
    from c have c1: "objects s' = objects s"
      and c2: "\<forall>arr. length (arrays s' arr) = length (arrays s arr) \<and>
               (\<forall>j < length (arrays s arr).
                  arrays s' arr ! j = arrays s arr ! j \<or>
                  (arrays s arr ! j = original \<and> arrays s' arr ! j = replacement))"
      by (simp_all add: splices_def)
    from d have d1: "\<forall>a \<in> inTree s original this. \<forall>arr m.
        objects s a = CombinationObject arr m \<longrightarrow>
          arrays s' arr = spliced original replacement (arrays s arr)"
      by (simp add: settled_def)
    from a b c1 d1 c2 show ?thesis by (intro conjI)
  qed
  have total: "\<exists>fuel s' returned. \<forall>more.
      replaceQuery (fuel + more) s this original replacement = Some (s', returned)"
    if "ranked rk original replacement s"
  proof -
    from that replaceQuery_returns [of rk original replacement this] obtain fuel result where
      "replaceQuery fuel s this original replacement = Some result"
      by (auto simp: returns_def)
    then have "\<forall>more. replaceQuery (fuel + more) s this original replacement
        = Some (fst result, snd result)"
      using fuel_mono(1) by simp
    then show ?thesis by blast
  qed
  have tree: "\<exists>fuel s' returned. \<forall>more.
      replaceQuery (fuel + more) s this original replacement = Some (s', returned)"
    if "unshared rk pos original s"
  proof -
    from unshared_returns [OF that, of this replacement] obtain fuel result where
      "replaceQuery fuel s this original replacement = Some result"
      by blast
    then have "\<forall>more. replaceQuery (fuel + more) s this original replacement
        = Some (fst result, snd result)"
      using fuel_mono(1) by simp
    then show ?thesis by blast
  qed
  from partial tree total show ?thesis by blast
qed

theorem replaceQuery_replaces_all_witness:
  "(\<exists>fuel s'.
     replaceQuery fuel
       \<lparr>objects = (\<lambda>a. ConditionObject (Some ''age'') (Some ''0'') None)
            (1 := CombinationObject 10 (7, []), 3 := CombinationObject 11 (7, []),
             6 := CombinationObject 12 (7, [])),
        arrays = (\<lambda>arr. [])(10 := [2, 3], 11 := [2, 4], 12 := [2])\<rparr>
       1 2 5 = Some (s', 1)
     \<and> arrays s' 10 = [5, 3] \<and> arrays s' 11 = [5, 4])
   \<and> (\<exists>fuel s'.
     replaceQuery fuel
       \<lparr>objects = (\<lambda>a. ConditionObject (Some ''age'') (Some ''0'') None)
            (1 := CombinationObject 10 (7, []), 3 := CombinationObject 11 (7, []),
             6 := CombinationObject 12 (7, [])),
        arrays = (\<lambda>arr. [])(10 := [2, 3], 11 := [2, 4], 12 := [2])\<rparr>
       1 2 6 = Some (s', 1)
     \<and> arrays s' 10 = [6, 3] \<and> arrays s' 11 = [6, 4])"
proof -
  let ?s = "\<lparr>objects = (\<lambda>a. ConditionObject (Some ''age'') (Some ''0'') None)
            (1 := CombinationObject 10 (7, []), 3 := CombinationObject 11 (7, []),
             6 := CombinationObject 12 (7, [])),
        arrays = (\<lambda>arr. [])(10 := [2, 3], 11 := [2, 4], 12 := [2])\<rparr>"
  let ?rk = "\<lambda>a::nat. if a = 1 then 2 else if a = 3 \<or> a = 6 then 1 else (0::nat)"
  let ?pos = "\<lambda>arr::nat. if arr = 11 then [1::nat] else []"
  have top: "1 \<in> inTree ?s 2 1"
    by (rule inTree.root) simp
  have "3 \<in> inTree ?s 2 1"
    by (rule inTree.child [OF top, of 10 "(7, [])"]) simp_all
  then have inner: "3 \<in> inTree ?s 2 1" .
  have first: "\<exists>fuel s'. replaceQuery fuel ?s 1 2 5 = Some (s', 1)
      \<and> arrays s' 10 = [5, 3] \<and> arrays s' 11 = [5, 4]"
  proof -
    note main = replaceQuery_replaces_all [of ?s 1 2 5 ?rk ?pos]
    have rk: "ranked ?rk 2 5 ?s"
      by (auto simp: ranked_def split: if_splits)
    from main rk obtain fuel s' returned where
      run: "\<forall>more. replaceQuery (fuel + more) ?s 1 2 5 = Some (s', returned)"
      by blast
    from run have "replaceQuery (fuel + 0) ?s 1 2 5 = Some (s', returned)"
      by (rule spec)
    then have call: "replaceQuery fuel ?s 1 2 5 = Some (s', returned)" by simp
    from main call have ret: "returned = (if (1::nat) = 2 then 5 else 1)"
      and all: "\<forall>a \<in> inTree ?s 2 1. \<forall>arr m. objects ?s a = CombinationObject arr m \<longrightarrow>
              arrays s' arr = spliced 2 5 (arrays ?s arr)"
      by blast+
    from ret call have a: "replaceQuery fuel ?s 1 2 5 = Some (s', 1)" by simp
    from all top have "\<forall>arr m. objects ?s 1 = CombinationObject arr m \<longrightarrow>
        arrays s' arr = spliced 2 5 (arrays ?s arr)" by (rule bspec)
    then have b: "arrays s' 10 = [5, 3]" by (simp add: spliced_def)
    from all inner have "\<forall>arr m. objects ?s 3 = CombinationObject arr m \<longrightarrow>
        arrays s' arr = spliced 2 5 (arrays ?s arr)" by (rule bspec)
    then have c: "arrays s' 11 = [5, 4]" by (simp add: spliced_def)
    from a b c show ?thesis by blast
  qed
  have second: "\<exists>fuel s'. replaceQuery fuel ?s 1 2 6 = Some (s', 1)
      \<and> arrays s' 10 = [6, 3] \<and> arrays s' 11 = [6, 4]"
  proof -
    note main = replaceQuery_replaces_all [of ?s 1 2 6 ?rk ?pos]
    have un: "unshared ?rk ?pos 2 ?s"
      by (auto simp: unshared_def less_Suc_eq split: if_splits)
    from main un obtain fuel s' returned where
      run: "\<forall>more. replaceQuery (fuel + more) ?s 1 2 6 = Some (s', returned)"
      by blast
    from run have "replaceQuery (fuel + 0) ?s 1 2 6 = Some (s', returned)"
      by (rule spec)
    then have call: "replaceQuery fuel ?s 1 2 6 = Some (s', returned)" by simp
    from main call have ret: "returned = (if (1::nat) = 2 then 6 else 1)"
      and all: "\<forall>a \<in> inTree ?s 2 1. \<forall>arr m. objects ?s a = CombinationObject arr m \<longrightarrow>
              arrays s' arr = spliced 2 6 (arrays ?s arr)"
      by blast+
    from ret call have a: "replaceQuery fuel ?s 1 2 6 = Some (s', 1)" by simp
    from all top have "\<forall>arr m. objects ?s 1 = CombinationObject arr m \<longrightarrow>
        arrays s' arr = spliced 2 6 (arrays ?s arr)" by (rule bspec)
    then have b: "arrays s' 10 = [6, 3]" by (simp add: spliced_def)
    from all inner have "\<forall>arr m. objects ?s 3 = CombinationObject arr m \<longrightarrow>
        arrays s' arr = spliced 2 6 (arrays ?s arr)" by (rule bspec)
    then have c: "arrays s' 11 = [6, 4]" by (simp add: spliced_def)
    from a b c show ?thesis by blast
  qed
  from first second show ?thesis by blast
qed

text \<open>
  A replacement that wraps the original: the first child of a combination is
  replaced by a combination of that child.  The wrapper is not walked, and its own
  slot keeps the original.
\<close>

lemma replaceQuery_wrapping:
  "replaceQuery 5
       \<lparr>objects = (\<lambda>a. ConditionObject (Some ''age'') (Some ''0'') None)
            (1 := CombinationObject 10 (7, []), 6 := CombinationObject 12 (7, [])),
        arrays = (\<lambda>arr. [])(10 := [2, 3], 12 := [2])\<rparr>
       1 2 6
   = Some (\<lparr>objects = (\<lambda>a. ConditionObject (Some ''age'') (Some ''0'') None)
            (1 := CombinationObject 10 (7, []), 6 := CombinationObject 12 (7, [])),
        arrays = (\<lambda>arr. [])(10 := [6, 3], 12 := [2])\<rparr>, 1)"
  by (simp add: eval_nat_numeral writeSlot_def fun_upd_twist)

subsection \<open>Argument values in document order\<close>

lemma fold_appends:
  assumes "\<And>c acc. c \<in> set cs \<Longrightarrow> f c acc = acc @ g c"
  shows "fold f cs ret = ret @ concat (map g cs)"
  using assms by (induction cs arbitrary: ret) simp_all

lemma queryArgumentsArray_rec_leaves:
  "queryArgumentsArray_rec q ret =
     ret @ filter (\<lambda>v. v \<noteq> VNull) (map defaultArgumentValue (leaves q))"
proof (induction q ret rule: queryArgumentsArray_rec.induct)
  case (1 i field argName ownArgMap ret)
  then show ?case
    by (cases "defaultArgumentValue (Condition i field argName ownArgMap)") (simp_all add: Let_def)
next
  case (2 i children ownArgMap ret)
  have "fold (\<lambda>child acc. queryArgumentsArray_rec child acc) children ret =
      ret @ concat (map (\<lambda>c. filter (\<lambda>v. v \<noteq> VNull) (map defaultArgumentValue (leaves c))) children)"
    by (rule fold_appends) (simp add: "2.IH")
  then show ?case
    by (simp add: map_concat filter_concat comp_def)
qed

lemma queryArgumentsArray_document_order:
  "queryArgumentsArray q = filter (\<lambda>v. v \<noteq> VNull) (map defaultArgumentValue (leaves q))"
  by (simp add: queryArgumentsArray_def queryArgumentsArray_rec_leaves)

text \<open>
  Claim C6.  \<open>queryArgumentsArray()\<close> walks the tree left to right, depth first, and
  collects the default argument value of every leaf, leaving out the leaves whose
  value is \<open>null\<close> or unset (\<open>queryArgumentsArray_document_order\<close> is the walk).  The
  code leaves out \<open>null\<close> only: an argument name that the map does not hold makes
  \<open>map.get(name)\<close> answer \<open>undefined\<close>, which passes \<open>value !== null\<close> and is
  pushed.  On three leaves over a map that binds \<open>10\<close> and \<open>"bob"\<close> and has no entry
  for the third argument, the code returns three elements, not \<open>[10, "bob"]\<close>.
\<close>

theorem queryArgumentsArray_unset_argument:
  "queryArgumentsArray
     (Combination 1
        [Condition 2 (Some ''age'') (Some ''0'') (Some (7, [(VStr ''0'', VNum 10), (VStr ''1'', VStr ''bob'')])),
         Condition 3 (Some ''name'') (Some ''1'') (Some (7, [(VStr ''0'', VNum 10), (VStr ''1'', VStr ''bob'')])),
         Condition 4 (Some ''city'') (Some ''2'') (Some (7, [(VStr ''0'', VNum 10), (VStr ''1'', VStr ''bob'')]))]
        (7, [(VStr ''0'', VNum 10), (VStr ''1'', VStr ''bob'')]))
   = [VNum 10, VStr ''bob'', VUndefined]"
  by (simp add: queryArgumentsArray_def defaultArgumentValue_def)

subsection \<open>Keys and values of a tree\<close>

lemma keyValuesMap_last_leaf:
  "keyValuesMap (Combination i (children @ [Condition j field argName leafArgMap]) ownArgMap) acc =
     Condition_keyValuesMap field argName leafArgMap []"
  by simp

text \<open>
  Claim C4.  \<open>keyValuesMap\<close> of a combination is to fold over the children into one
  accumulator, so that the returned map has an entry for every leaf of the subtree
  and keeps what earlier children put in.  The code hands the accumulator to
  \<open>child.keyValuesMap\<close>, which on a leaf is the parameterless method of the base
  class: it starts from a new map.  Each leaf so replaces what was gathered before
  it (\<open>keyValuesMap_last_leaf\<close>).  On two leaves, \<open>age\<close> bound to \<open>10\<close> and \<open>name\<close>
  bound to \<open>"bob"\<close>, the code returns the entry of \<open>name\<close> alone.
\<close>

theorem keyValuesMap_loses_earlier_children:
  "keyValuesMap
     (Combination 1
        [Condition 2 (Some ''age'') (Some ''0'') (Some (7, [(VStr ''0'', VNum 10), (VStr ''1'', VStr ''bob'')])),
         Condition 3 (Some ''name'') (Some ''1'') (Some (7, [(VStr ''0'', VNum 10), (VStr ''1'', VStr ''bob'')]))]
        (7, [(VStr ''0'', VNum 10), (VStr ''1'', VStr ''bob'')]))
     []
   = [(''name'', [VStr ''bob''])]"
  by (simp add: Condition_keyValuesMap_def)

subsection \<open>Comparison of a leaf\<close>

lemma testValues_strict: "testValues fieldValue argValue = strict_eq argValue fieldValue"
  by (cases argValue; cases fieldValue) (auto simp: testValues_def)

text \<open>
  Claim C7.  The default comparison is to hold when both operands are absent or
  \<open>null\<close>, and a leaf is to match a key-value candidate without the field when the
  argument resolves to \<open>null\<close>.  The code compares with \<open>===\<close>
  (\<open>testValues_strict\<close>): on a \<open>Map\<close> without the field \<open>t.get(field)\<close> answers
  \<open>undefined\<close>, the argument resolves to \<open>null\<close>, and \<open>undefined === null\<close> is
  false, so the leaf does not match.  The leaf has the field \<open>age\<close>, the argument
  \<open>0\<close> and an empty argument map; the candidate is an empty \<open>Map\<close>.  On no runtime
  does the test succeed; where \<open>0\<close> names no member of the argument map, the
  argument resolves to \<open>null\<close> and the test answers \<open>false\<close>.
\<close>

theorem leaf_test_absent_field:
  "test rt (Condition 2 (Some ''age'') (Some ''0'') (Some (7, []))) (VMap 8 []) \<noteq> Inr True
   \<and> (readMember rt (VMap 7 []) ''0'' = Inr VUndefined \<longrightarrow>
        test rt (Condition 2 (Some ''age'') (Some ''0'') (Some (7, []))) (VMap 8 []) = Inr False
        \<and> getArgumentValue rt (Some (7, [])) (Some ''0'') = Inr VNull)
   \<and> getFieldValue rt (VMap 8 []) (Some ''age'') = VUndefined
   \<and> testValues VUndefined VNull = False"
proof -
  have field: "getFieldValue rt (VMap 8 []) (Some ''age'') = VUndefined"
    by (simp add: string_defs)
  have compare: "testValues VUndefined v = False" if "v \<noteq> VUndefined" for v
    using that by (cases v) (simp_all add: testValues_def)
  have never: "test rt (Condition 2 (Some ''age'') (Some ''0'') (Some (7, []))) (VMap 8 []) \<noteq> Inr True"
  proof (cases "readMember rt (VMap 7 []) ''0''")
    case (Inl e)
    then show ?thesis by (simp add: leaf_defs string_defs)
  next
    case (Inr v)
    then show ?thesis
      by (cases v) (simp_all add: leaf_defs string_defs)
  qed
  have absent: "test rt (Condition 2 (Some ''age'') (Some ''0'') (Some (7, []))) (VMap 8 []) = Inr False
      \<and> getArgumentValue rt (Some (7, [])) (Some ''0'') = Inr VNull"
    if "readMember rt (VMap 7 []) ''0'' = Inr VUndefined"
    using that by (simp add: leaf_defs string_defs)
  from field compare [of VNull] never absent show ?thesis by simp
qed

theorem leaf_test_absent_field_witness:
  "test exampleRuntime (Condition 2 (Some ''age'') (Some ''0'') (Some (7, []))) (VMap 8 []) = Inr False
   \<and> getArgumentValue exampleRuntime (Some (7, [])) (Some ''0'') = Inr VNull
   \<and> getFieldValue exampleRuntime (VMap 8 []) (Some ''age'') = VUndefined
   \<and> testValues VUndefined VNull = False"
  using leaf_test_absent_field [of exampleRuntime] by (simp add: exampleRuntime_def)

end
